theory Spec2Isabelle
  imports Complex_Main "HOL-Library.Product_Lexorder"
begin

section \<open>The tile grid\<close>

text \<open>
  The labyrinth of \<^verbatim>\<open>main.py\<close>: \<^verbatim>\<open>MAP_LAYOUT\<close> is a list of strings, one per row,
  \<^verbatim>\<open>WORLD_MAP\<close> the same rows as lists of characters. A tile is open when it is the
  character 0 and blocking otherwise. Python floats are modelled as reals, Python's
  unbounded integers as \<^typ>\<open>int\<close>.
\<close>

definition MAP_LAYOUT :: "string list" where
  "MAP_LAYOUT =
    [''111111111111111111111'',
     ''100000000000000000001'',
     ''101111101111111011101'',
     ''101000101000001010001'',
     ''101010101011101011101'',
     ''101010001010001000101'',
     ''101011111010111110101'',
     ''101000001010000010101'',
     ''101111101011111010101'',
     ''101000101000001010101'',
     ''101010101111101011101'',
     ''101010001000101000101'',
     ''101011111010101110101'',
     ''101000000010100010001'',
     ''101111111110111011101'',
     ''101000000000001010001'',
     ''101011111111101011101'',
     ''100010000000001000001'',
     ''111111111111111111111'']"

definition WORLD_MAP :: "char list list" where
  "WORLD_MAP = map (\<lambda>row. row) MAP_LAYOUT"

definition MAP_WIDTH :: int where
  "MAP_WIDTH = int (length (hd WORLD_MAP))"

definition MAP_HEIGHT :: int where
  "MAP_HEIGHT = int (length WORLD_MAP)"

text \<open>Python's \<^verbatim>\<open>int(x)\<close> on a float truncates towards zero.\<close>

definition py_int :: "real \<Rightarrow> int" where
  "py_int x = (if 0 \<le> x then \<lfloor>x\<rfloor> else \<lceil>x\<rceil>)"

definition is_blocking :: "real \<Rightarrow> real \<Rightarrow> bool" where
  "is_blocking x y =
    (if x < 0 \<or> y < 0 \<or> x \<ge> real_of_int MAP_WIDTH \<or> y \<ge> real_of_int MAP_HEIGHT then True
     else WORLD_MAP ! nat (py_int y) ! nat (py_int x) \<noteq> CHR ''0'')"

definition grid_blocked :: "int \<Rightarrow> int \<Rightarrow> bool" where
  "grid_blocked tile_x tile_y =
    (if tile_x < 0 \<or> tile_y < 0 \<or> tile_x \<ge> MAP_WIDTH \<or> tile_y \<ge> MAP_HEIGHT then True
     else WORLD_MAP ! nat tile_y ! nat tile_x \<noteq> CHR ''0'')"

section \<open>Collision-aware motion\<close>

definition move_entity :: "real \<Rightarrow> real \<Rightarrow> real \<Rightarrow> real \<Rightarrow> real \<times> real" where
  "move_entity x y move_x move_y =
    (let new_x = x + move_x;
         new_y = y + move_y;
         x1 = (if \<not> is_blocking new_x y then new_x else x);
         y1 = (if \<not> is_blocking x1 new_y then new_y else y)
     in (x1, y1))"

text \<open>
  Iterating \<^const>\<open>move_entity\<close> over a sequence of displacements: the list of the
  positions reached after each displacement, in order.
\<close>

fun move_sequence :: "real \<times> real \<Rightarrow> (real \<times> real) list \<Rightarrow> (real \<times> real) list" where
  "move_sequence pos [] = []"
| "move_sequence pos (d # ds) =
    (let pos' = move_entity (fst pos) (snd pos) (fst d) (snd d)
     in pos' # move_sequence pos' ds)"


section \<open>Players, monsters and pellets\<close>

text \<open>
  The dataclasses of \<^verbatim>\<open>main.py\<close>. The fields \<^verbatim>\<open>x\<close> and \<^verbatim>\<open>y\<close> carry the name of
  their class, since a record field is a constant of the theory.
\<close>

record Player =
  player_x :: real
  player_y :: real
  dir_x :: real
  dir_y :: real
  plane_x :: real
  plane_y :: real

record Monster =
  monster_x :: real
  monster_y :: real
  speed :: real
  pulse :: real
  anim_timer :: real
  path :: "(int \<times> int) list"
  path_cooldown :: real

record Pellet =
  pellet_x :: real
  pellet_y :: real
  collected :: bool

definition spawn_player :: Player where
  "spawn_player = \<lparr>player_x = 3.5, player_y = 3.5, dir_x = - 1, dir_y = 0,
     plane_x = 0, plane_y = 0.66\<rparr>"

definition rotate_player :: "Player \<Rightarrow> real \<Rightarrow> Player" where
  "rotate_player player angle =
    (let cos_a = cos angle;
         sin_a = sin angle;
         old_dir_x = dir_x player;
         p1 = player\<lparr>dir_x := dir_x player * cos_a - dir_y player * sin_a\<rparr>;
         p2 = p1\<lparr>dir_y := old_dir_x * sin_a + dir_y p1 * cos_a\<rparr>;
         old_plane_x = plane_x p2;
         p3 = p2\<lparr>plane_x := plane_x p2 * cos_a - plane_y p2 * sin_a\<rparr>;
         p4 = p3\<lparr>plane_y := old_plane_x * sin_a + plane_y p3 * cos_a\<rparr>
     in p4)"

text \<open>\<^verbatim>\<open>math.hypot\<close>, the Euclidean norm of a pair.\<close>

definition hypot :: "real \<Rightarrow> real \<Rightarrow> real" where
  "hypot a b = sqrt (a\<^sup>2 + b\<^sup>2)"

text \<open>
  \<^verbatim>\<open>collect_pellets\<close> walks the pellets in order, marks those within the radius and
  counts them. The model returns the updated pellets with the count; the caller in
  \<^verbatim>\<open>main\<close> leaves the radius at its default, \<open>0.35\<close>.
\<close>

fun collect_pellets :: "Player \<Rightarrow> Pellet list \<Rightarrow> real \<Rightarrow> Pellet list \<times> int" where
  "collect_pellets player [] radius = ([], 0)"
| "collect_pellets player (pellet # rest) radius =
    (if collected pellet then
       (let (rest', collected_now) = collect_pellets player rest radius
        in (pellet # rest', collected_now))
     else if hypot (player_x player - pellet_x pellet) (player_y player - pellet_y pellet) < radius
     then
       (let (rest', collected_now) = collect_pellets player rest radius
        in (pellet\<lparr>collected := True\<rparr> # rest', collected_now + 1))
     else
       (let (rest', collected_now) = collect_pellets player rest radius
        in (pellet # rest', collected_now)))"

definition default_radius :: real where
  "default_radius = 0.35"

text \<open>A sequence of calls, one per player state, with the default radius.\<close>

fun collect_sequence :: "Pellet list \<Rightarrow> Player list \<Rightarrow> Pellet list" where
  "collect_sequence pellets [] = pellets"
| "collect_sequence pellets (player # players) =
    collect_sequence (fst (collect_pellets player pellets default_radius)) players"

definition in_capture_radius :: "Player \<Rightarrow> Pellet \<Rightarrow> bool" where
  "in_capture_radius player pellet \<longleftrightarrow>
    hypot (player_x player - pellet_x pellet) (player_y player - pellet_y pellet) < 0.35"


section \<open>Path planning\<close>

type_synonym cell = "int \<times> int"

text \<open>The exceptions that the modelled code can raise.\<close>

datatype error = KeyError | IndexError | ZeroDivisionError | ValueError | OverflowError

text \<open>
  \<^verbatim>\<open>heapq\<close> keeps a priority queue of pairs \<open>(priority, cell)\<close>; \<^verbatim>\<open>heappop\<close> removes
  and returns the least pair, in Python's order on tuples, which is the lexicographic
  order of the priority, then the column, then the row. Pairs that compare equal are
  equal, so a queue is determined by the pairs it holds: the model keeps them in a list.
  Scores count steps (the floats 0.0, 1.0, 2.0 and so on) and are modelled as naturals.
\<close>

type_synonym heap = "(nat \<times> cell) list"

definition heappush :: "heap \<Rightarrow> nat \<times> cell \<Rightarrow> heap" where
  "heappush h item = item # h"

definition heappop :: "heap \<Rightarrow> (nat \<times> cell) \<times> heap" where
  "heappop h = (let m = fold min (tl h) (hd h) in (m, remove1 m h))"

record astar_state =
  open_heap :: heap
  came_from :: "cell \<rightharpoonup> cell"
  g_score :: "cell \<rightharpoonup> nat"

definition heuristic :: "cell \<Rightarrow> cell \<Rightarrow> nat" where
  "heuristic a b = nat (\<bar>fst a - fst b\<bar> + \<bar>snd a - snd b\<bar>)"

definition neighbors :: "cell \<Rightarrow> cell list" where
  "neighbors c = (case c of (cx, cy) \<Rightarrow> [(cx + 1, cy), (cx - 1, cy), (cx, cy + 1), (cx, cy - 1)])"

text \<open>The body of the loop over the four neighbours, for one neighbour.\<close>

definition relax :: "cell \<Rightarrow> cell \<Rightarrow> astar_state \<Rightarrow> cell \<Rightarrow> error + astar_state" where
  "relax goal current st neighbor =
    (if grid_blocked (fst neighbor) (snd neighbor) then Inr st
     else case g_score st current of
       None \<Rightarrow> Inl KeyError
     | Some g \<Rightarrow>
         (let tentative_g = g + 1 in
          if (case g_score st neighbor of None \<Rightarrow> True | Some old \<Rightarrow> tentative_g < old)
          then Inr (st\<lparr>came_from := (came_from st)(neighbor \<mapsto> current),
                        g_score := (g_score st)(neighbor \<mapsto> tentative_g),
                        open_heap := heappush (open_heap st)
                          (tentative_g + heuristic neighbor goal, neighbor)\<rparr>)
          else Inr st))"

fun relax_all :: "cell \<Rightarrow> cell \<Rightarrow> astar_state \<Rightarrow> cell list \<Rightarrow> error + astar_state" where
  "relax_all goal current st [] = Inr st"
| "relax_all goal current st (n # ns) =
    (case relax goal current st n of
       Inl e \<Rightarrow> Inl e
     | Inr st' \<Rightarrow> relax_all goal current st' ns)"

text \<open>
  Following \<^verbatim>\<open>came_from\<close> back from the goal. The source loops while the current cell
  has a predecessor, so the model is a partial function: \<open>None\<close> stands for a loop
  that does not end.
\<close>

partial_function (option) reconstruct :: "(cell \<rightharpoonup> cell) \<Rightarrow> cell \<Rightarrow> cell list \<Rightarrow> cell list option"
  where
  "reconstruct cf current path_acc =
    (case cf current of
       None \<Rightarrow> Some (rev path_acc)
     | Some prev \<Rightarrow> reconstruct cf prev (path_acc @ [prev]))"

text \<open>
  The main loop. The result is \<open>None\<close> when the search does not return, \<open>Some (Inl e)\<close>
  when it raises \<open>e\<close>, and \<open>Some (Inr p)\<close> when it returns the path \<open>p\<close>.
\<close>

function astar_loop :: "cell \<Rightarrow> astar_state \<Rightarrow> (error + cell list) option" where
  "astar_loop goal st =
    (if open_heap st = [] then Some (Inr [])
     else case heappop (open_heap st) of
       (item, rest) \<Rightarrow>
         (let current = snd item; st1 = st\<lparr>open_heap := rest\<rparr> in
          if current = goal
          then map_option Inr (reconstruct (came_from st1) current [current])
          else case relax_all goal current st1 (neighbors current) of
                 Inl e \<Rightarrow> Some (Inl e)
               | Inr st2 \<Rightarrow> astar_loop goal st2))"
  by pat_completeness auto

text \<open>
  Termination of the search. Only cells that are not blocked are ever scored, and they
  lie inside the grid. Each improvement either scores a new open cell or lowers the score
  of one, and an iteration without an improvement shortens the queue.
\<close>

definition open_cells :: "cell set" where
  "open_cells = {c. \<not> grid_blocked (fst c) (snd c)}"

definition unseen :: "astar_state \<Rightarrow> nat" where
  "unseen st = card {c \<in> open_cells. g_score st c = None}"

definition score_sum :: "astar_state \<Rightarrow> nat" where
  "score_sum st = (\<Sum>c \<in> open_cells. case g_score st c of None \<Rightarrow> 0 | Some v \<Rightarrow> v)"

definition progress :: "astar_state \<Rightarrow> astar_state \<Rightarrow> bool" where
  "progress st' st \<longleftrightarrow> unseen st' < unseen st \<or> (unseen st' = unseen st \<and> score_sum st' < score_sum st)"

lemma finite_open_cells: "finite open_cells"
proof -
  have "open_cells \<subseteq> {0..<MAP_WIDTH} \<times> {0..<MAP_HEIGHT}"
    by (auto simp: open_cells_def grid_blocked_def split: if_splits)
  then show ?thesis by (rule finite_subset) simp
qed

lemma progress_trans: "progress a b \<Longrightarrow> progress b c \<Longrightarrow> progress a c"
  by (auto simp: progress_def)

lemma relax_progress:
  assumes "relax goal current st n = Inr st'"
  shows "st' = st \<or> progress st' st"
proof (cases "st' = st")
  case True then show ?thesis by simp
next
  case False
  from assms False obtain g where open_n: "\<not> grid_blocked (fst n) (snd n)"
    and g: "g_score st current = Some g"
    and better: "(case g_score st n of None \<Rightarrow> True | Some old \<Rightarrow> g + 1 < old)"
    and gs': "g_score st' = (g_score st)(n \<mapsto> g + 1)"
    by (auto simp: relax_def Let_def split: if_splits option.splits)
  have n_open: "n \<in> open_cells" using open_n by (simp add: open_cells_def)
  show ?thesis
  proof (cases "g_score st n")
    case None
    have eq: "{c \<in> open_cells. g_score st' c = None} = {c \<in> open_cells. g_score st c = None} - {n}"
      using gs' by auto
    have "n \<in> {c \<in> open_cells. g_score st c = None}" using None n_open by simp
    moreover have "finite {c \<in> open_cells. g_score st c = None}"
      using finite_open_cells by simp
    ultimately have "card ({c \<in> open_cells. g_score st c = None} - {n}) < card {c \<in> open_cells. g_score st c = None}"
      by (rule card_Diff1_less[rotated])
    then show ?thesis by (simp add: progress_def unseen_def eq)
  next
    case (Some old)
    with better have lt: "g + 1 < old" by simp
    have eq: "{c \<in> open_cells. g_score st' c = None} = {c \<in> open_cells. g_score st c = None}"
      using gs' Some by auto
    let ?f = "\<lambda>c. case g_score st c of None \<Rightarrow> 0 | Some v \<Rightarrow> v"
    let ?f' = "\<lambda>c. case g_score st' c of None \<Rightarrow> 0 | Some v \<Rightarrow> v"
    have "sum ?f' open_cells < sum ?f open_cells"
    proof (rule sum_strict_mono_ex1)
      show "finite open_cells" by (rule finite_open_cells)
      show "\<forall>c\<in>open_cells. ?f' c \<le> ?f c" using gs' Some lt by auto
      show "\<exists>c\<in>open_cells. ?f' c < ?f c" using gs' Some lt n_open by (intro bexI[of _ n]) auto
    qed
    then show ?thesis by (simp add: progress_def unseen_def score_sum_def eq)
  qed
qed

lemma relax_all_progress:
  "relax_all goal current st ns = Inr st' \<Longrightarrow> st' = st \<or> progress st' st"
proof (induction ns arbitrary: st)
  case Nil
  then show ?case by simp
next
  case (Cons n ns)
  then obtain st1 where r: "relax goal current st n = Inr st1"
    and rest: "relax_all goal current st1 ns = Inr st'"
    by (auto split: sum.splits)
  from relax_progress [OF r] Cons.IH [OF rest] show ?case
    by (auto intro: progress_trans)
qed

lemma heappop_mem: "h \<noteq> [] \<Longrightarrow> fst (heappop h) \<in> set h"
proof -
  have "fold min xs x \<in> set (x # xs)" for xs and x :: "nat \<times> cell"
    by (induction xs arbitrary: x) (auto simp: min_def)
  then show "h \<noteq> [] \<Longrightarrow> fst (heappop h) \<in> set h"
    by (cases h) (auto simp: heappop_def Let_def simp del: fold_simps)
qed

lemma heappop_length: "h \<noteq> [] \<Longrightarrow> heappop h = (item, rest) \<Longrightarrow> Suc (length rest) = length h"
  using heappop_mem [of h]
  by (auto simp: heappop_def Let_def length_remove1 simp del: fold_simps)

termination astar_loop
proof (relation "measures [\<lambda>(goal, st). unseen st, \<lambda>(goal, st). score_sum st,
    \<lambda>(goal, st). length (open_heap st)]", goal_cases)
  case 1
  then show ?case by simp
next
  case (2 goal st item rest current st1 st2)
  from 2 have len: "Suc (length rest) = length (open_heap st)"
    using heappop_length [of "open_heap st" item rest] by simp
  have st1: "unseen st1 = unseen st" "score_sum st1 = score_sum st" "open_heap st1 = rest"
    using 2 by (simp_all add: unseen_def score_sum_def)
  from 2 have "relax_all goal current st1 (neighbors current) = Inr st2" by simp
  from relax_all_progress [OF this] show ?case
    using st1 len by (auto simp: progress_def)
qed

declare astar_loop.simps [simp del]

definition astar_init :: "cell \<Rightarrow> astar_state" where
  "astar_init start =
    \<lparr>open_heap = heappush [] (0, start), came_from = Map.empty, g_score = [start \<mapsto> 0]\<rparr>"

definition astar_path :: "cell \<Rightarrow> cell \<Rightarrow> (error + cell list) option" where
  "astar_path start goal =
    (if start = goal then Some (Inr [start])
     else if grid_blocked (fst goal) (snd goal) then Some (Inr [])
     else astar_loop goal (astar_init start))"

text \<open>
  What the planner is measured against. A walk is a non-empty sequence of cells in which
  each cell after the first is one of the four neighbours of the cell before it and is
  not blocked; the first cell is not tested, as the search does not test its start. A
  goal is reachable from a start when some walk leads from the one to the other, and a
  shortest path is a walk between them that no other such walk undercuts in length.
\<close>

fun walk :: "cell list \<Rightarrow> bool" where
  "walk [] = False"
| "walk [c] = True"
| "walk (a # b # rest) =
    (b \<in> set (neighbors a) \<and> \<not> grid_blocked (fst b) (snd b) \<and> walk (b # rest))"

definition path_between :: "cell \<Rightarrow> cell \<Rightarrow> cell list \<Rightarrow> bool" where
  "path_between start goal p \<longleftrightarrow> p \<noteq> [] \<and> hd p = start \<and> last p = goal \<and> walk p"

definition reachable :: "cell \<Rightarrow> cell \<Rightarrow> bool" where
  "reachable start goal \<longleftrightarrow> (\<exists>p. path_between start goal p)"

definition shortest_between :: "cell \<Rightarrow> cell \<Rightarrow> cell list \<Rightarrow> bool" where
  "shortest_between start goal p \<longleftrightarrow>
    path_between start goal p \<and> (\<forall>q. path_between start goal q \<longrightarrow> length p \<le> length q)"

section \<open>The pursuer\<close>

text \<open>
  Python's \<^verbatim>\<open>%\<close> on floats takes the sign of the divisor; \<^verbatim>\<open>math.tau\<close> is \<open>2\<pi>\<close>.
\<close>

definition py_fmod :: "real \<Rightarrow> real \<Rightarrow> real" where
  "py_fmod a m = a - m * real_of_int \<lfloor>a / m\<rfloor>"

definition tau :: real where
  "tau = 2 * pi"

definition monster_tile :: "Monster \<Rightarrow> cell" where
  "monster_tile monster = (py_int (monster_x monster), py_int (monster_y monster))"

definition goal_tile :: "Player \<Rightarrow> cell" where
  "goal_tile player = (py_int (player_x player), py_int (player_y player))"

text \<open>The first three assignments of the loop body: the phases and the cooldown.\<close>

definition tick_timers :: "real \<Rightarrow> Monster \<Rightarrow> Monster" where
  "tick_timers delta_time monster =
    monster\<lparr>pulse := py_fmod (pulse monster + delta_time * 2.0) tau,
            anim_timer := py_fmod (anim_timer monster + delta_time) 1000.0,
            path_cooldown := path_cooldown monster - delta_time\<rparr>"

text \<open>
  The local variable \<^verbatim>\<open>needs_path\<close>, which guards the only call of \<^verbatim>\<open>astar_path\<close>.
  The disjunction is evaluated left to right, so the last cell of the path is read only
  when the path is not empty.
\<close>

definition needs_path :: "Monster \<Rightarrow> Player \<Rightarrow> bool" where
  "needs_path monster player \<longleftrightarrow>
     path_cooldown monster \<le> 0
   \<or> path monster = []
   \<or> last (path monster) \<noteq> goal_tile player
   \<or> monster_tile monster \<notin> set (path monster)"

text \<open>
  The refresh of the cached path. The call of \<^verbatim>\<open>astar_path\<close> is an effect of the tick,
  so the model returns, beside the monster, the calls of \<^verbatim>\<open>astar_path\<close> that the tick
  has made, each with its two arguments: none when \<^verbatim>\<open>needs_path\<close> is false, one when
  it is true.
\<close>

type_synonym search_call = "cell \<times> cell"

definition refresh_path ::
  "Player \<Rightarrow> real \<Rightarrow> Monster \<Rightarrow> (error + Monster \<times> search_call list) option" where
  "refresh_path player delta_time monster =
    (let monster = tick_timers delta_time monster in
     if needs_path monster player then
       (case astar_path (monster_tile monster) (goal_tile player) of
          None \<Rightarrow> None
        | Some (Inl e) \<Rightarrow> Some (Inl e)
        | Some (Inr p) \<Rightarrow>
            Some (Inr (monster\<lparr>path := p, path_cooldown := 0.4\<rparr>,
                       [(monster_tile monster, goal_tile player)])))
     else Some (Inr (monster, [])))"

text \<open>Centre of a tile.\<close>

definition tile_center :: "cell \<Rightarrow> real \<times> real" where
  "tile_center t = (real_of_int (fst t) + 0.5, real_of_int (snd t) + 0.5)"

text \<open>
  The choice of the target and the move towards it. The pair returned by
  \<open>choose_target\<close> is the target and the monster, whose path has lost its first
  cell when the monster has reached the next waypoint.
\<close>

definition choose_target :: "Player \<Rightarrow> Monster \<Rightarrow> (real \<times> real) \<times> Monster" where
  "choose_target player monster =
    (if path monster \<noteq> [] \<and> length (path monster) > 1 then
       (let next_tile = path monster ! 1;
            target = tile_center next_tile
        in if \<bar>monster_x monster - fst target\<bar> < 0.1 \<and> \<bar>monster_y monster - snd target\<bar> < 0.1
           then
             (let popped = monster\<lparr>path := tl (path monster)\<rparr>
              in if length (path popped) > 1
                 then (tile_center (path popped ! 1), popped)
                 else ((player_x player, player_y player), popped))
           else (target, monster))
     else ((player_x player, player_y player), monster))"

definition follow_path :: "Player \<Rightarrow> real \<Rightarrow> Monster \<Rightarrow> Monster" where
  "follow_path player delta_time monster0 =
    (case choose_target player monster0 of
       (target, monster) \<Rightarrow>
         (let to_x = fst target - monster_x monster;
              to_y = snd target - monster_y monster;
              distance = hypot to_x to_y;
              unit_x = (if distance > 0.001 then to_x / distance else to_x);
              unit_y = (if distance > 0.001 then to_y / distance else to_y);
              move_x = unit_x * speed monster * delta_time;
              move_y = unit_y * speed monster * delta_time;
              moved = move_entity (monster_x monster) (monster_y monster) move_x move_y
          in monster\<lparr>monster_x := fst moved, monster_y := snd moved\<rparr>))"

text \<open>
  The body of the loop of \<^verbatim>\<open>update_monsters\<close> for one monster: the updated monster and
  the calls of \<^verbatim>\<open>astar_path\<close> made for it in this tick.
\<close>

definition update_monster ::
  "Player \<Rightarrow> real \<Rightarrow> Monster \<Rightarrow> (error + Monster \<times> search_call list) option" where
  "update_monster player delta_time monster =
    (case refresh_path player delta_time monster of
       None \<Rightarrow> None
     | Some (Inl e) \<Rightarrow> Some (Inl e)
     | Some (Inr (refreshed, calls)) \<Rightarrow>
         Some (Inr (follow_path player delta_time refreshed, calls)))"

fun update_monsters ::
  "Monster list \<Rightarrow> Player \<Rightarrow> real \<Rightarrow> (error + Monster list \<times> search_call list) option" where
  "update_monsters [] player delta_time = Some (Inr ([], []))"
| "update_monsters (monster # rest) player delta_time =
    (case update_monster player delta_time monster of
       None \<Rightarrow> None
     | Some (Inl e) \<Rightarrow> Some (Inl e)
     | Some (Inr (monster', calls)) \<Rightarrow>
         (case update_monsters rest player delta_time of
            None \<Rightarrow> None
          | Some (Inl e) \<Rightarrow> Some (Inl e)
          | Some (Inr (rest', calls')) \<Rightarrow> Some (Inr (monster' # rest', calls @ calls'))))"

section \<open>Floats that may be infinite\<close>

text \<open>
  The ray caster starts from \<^verbatim>\<open>float("inf")\<close>, and the difference of two infinities is
  not a number. Where the source can produce such values the model uses \<open>pyfloat\<close>: a
  real, an infinity or NaN, with the arithmetic and the comparisons of IEEE 754 on the
  special values and exact arithmetic on the reals.
\<close>

datatype pyfloat = Fin real | PosInf | NegInf | NaN

fun fl_neg :: "pyfloat \<Rightarrow> pyfloat" where
  "fl_neg (Fin a) = Fin (- a)"
| "fl_neg PosInf = NegInf"
| "fl_neg NegInf = PosInf"
| "fl_neg NaN = NaN"

fun fl_add :: "pyfloat \<Rightarrow> pyfloat \<Rightarrow> pyfloat" where
  "fl_add (Fin a) (Fin b) = Fin (a + b)"
| "fl_add NaN b = NaN"
| "fl_add a NaN = NaN"
| "fl_add PosInf NegInf = NaN"
| "fl_add NegInf PosInf = NaN"
| "fl_add PosInf b = PosInf"
| "fl_add NegInf b = NegInf"
| "fl_add a PosInf = PosInf"
| "fl_add a NegInf = NegInf"

definition fl_sub :: "pyfloat \<Rightarrow> pyfloat \<Rightarrow> pyfloat" where
  "fl_sub a b = fl_add a (fl_neg b)"

text \<open>The product of a finite float and a float.\<close>

fun fl_scale :: "real \<Rightarrow> pyfloat \<Rightarrow> pyfloat" where
  "fl_scale a (Fin b) = Fin (a * b)"
| "fl_scale a NaN = NaN"
| "fl_scale a PosInf = (if a > 0 then PosInf else if a < 0 then NegInf else NaN)"
| "fl_scale a NegInf = (if a > 0 then NegInf else if a < 0 then PosInf else NaN)"

fun fl_less :: "pyfloat \<Rightarrow> pyfloat \<Rightarrow> bool" where
  "fl_less (Fin a) (Fin b) = (a < b)"
| "fl_less NaN b = False"
| "fl_less a NaN = False"
| "fl_less PosInf b = False"
| "fl_less a PosInf = True"
| "fl_less NegInf b = (b \<noteq> NegInf)"
| "fl_less a NegInf = False"

text \<open>Python's \<^verbatim>\<open>max(a, b)\<close> keeps \<open>a\<close> unless \<open>b > a\<close>.\<close>

definition py_max :: "pyfloat \<Rightarrow> pyfloat \<Rightarrow> pyfloat" where
  "py_max a b = (if fl_less a b then b else a)"

text \<open>
  Division raises \<^verbatim>\<open>ZeroDivisionError\<close> on a zero divisor; \<^verbatim>\<open>int\<close> raises on the
  special values; indexing a list raises out of range and counts from the end for
  negative indices.
\<close>

definition py_truediv :: "real \<Rightarrow> real \<Rightarrow> error + real" where
  "py_truediv a b = (if b = 0 then Inl ZeroDivisionError else Inr (a / b))"

fun fl_truediv :: "real \<Rightarrow> pyfloat \<Rightarrow> error + pyfloat" where
  "fl_truediv a (Fin b) = (if b = 0 then Inl ZeroDivisionError else Inr (Fin (a / b)))"
| "fl_truediv a PosInf = Inr (Fin 0)"
| "fl_truediv a NegInf = Inr (Fin 0)"
| "fl_truediv a NaN = Inr NaN"

fun fl_int :: "pyfloat \<Rightarrow> error + int" where
  "fl_int (Fin a) = Inr (py_int a)"
| "fl_int PosInf = Inl OverflowError"
| "fl_int NegInf = Inl OverflowError"
| "fl_int NaN = Inl ValueError"

definition py_mod :: "int \<Rightarrow> int \<Rightarrow> error + int" where
  "py_mod a b = (if b = 0 then Inl ZeroDivisionError else Inr (a mod b))"

definition py_index :: "'a list \<Rightarrow> int \<Rightarrow> error + 'a" where
  "py_index xs i =
    (if 0 \<le> i \<and> i < int (length xs) then Inr (xs ! nat i)
     else if i < 0 \<and> - int (length xs) \<le> i then Inr (xs ! nat (int (length xs) + i))
     else Inl IndexError)"

definition bind_err :: "error + 'a \<Rightarrow> ('a \<Rightarrow> error + 'b) \<Rightarrow> error + 'b" where
  "bind_err m f = (case m of Inl e \<Rightarrow> Inl e | Inr v \<Rightarrow> f v)"

section \<open>The sprite compositor\<close>

definition SCREEN_WIDTH :: int where
  "SCREEN_WIDTH = 960"

definition SCREEN_HEIGHT :: int where
  "SCREEN_HEIGHT = 600"

definition MONSTER_ANIM_FPS :: int where
  "MONSTER_ANIM_FPS = 6"

text \<open>
  One call of \<^verbatim>\<open>screen.blit\<close>: a stripe one pixel wide, cut from a scaled sprite at
  \<open>blit_tex_x\<close> and drawn at the screen column \<open>blit_x\<close> from the row \<open>blit_y\<close> down.
  \<open>blit_frame\<close> is the animation frame of the sprite (0 for a pellet). \<open>blit_depth\<close>
  is not part of the call: it records the camera-space depth \<^verbatim>\<open>transform_y\<close> of the
  billboard that the stripe belongs to, so that occlusion can be stated.
\<close>

record blit =
  blit_frame :: int
  blit_depth :: real
  blit_x :: int
  blit_y :: int
  blit_tex_x :: int
  blit_height :: int

text \<open>The loop over the stripes of one billboard, shared by monsters and pellets.\<close>

fun draw_stripes ::
  "pyfloat list \<Rightarrow> int \<Rightarrow> real \<Rightarrow> int \<Rightarrow> int \<Rightarrow> int \<Rightarrow> int \<Rightarrow> int list \<Rightarrow> error + blit list"
  where
  "draw_stripes depth_buffer frame_idx transform_y sprite_left sprite_width sprite_height
      draw_start_y [] = Inr []"
| "draw_stripes depth_buffer frame_idx transform_y sprite_left sprite_width sprite_height
      draw_start_y (stripe # rest) =
    (let tex_x = stripe - sprite_left in
     if 0 \<le> stripe \<and> stripe < SCREEN_WIDTH \<and> 0 \<le> tex_x \<and> tex_x < sprite_width then
       bind_err (py_index depth_buffer stripe) (\<lambda>depth.
         if fl_less (Fin transform_y) depth then
           bind_err (draw_stripes depth_buffer frame_idx transform_y sprite_left sprite_width
                       sprite_height draw_start_y rest)
             (\<lambda>blits. Inr (\<lparr>blit_frame = frame_idx, blit_depth = transform_y, blit_x = stripe,
                               blit_y = draw_start_y, blit_tex_x = tex_x,
                               blit_height = sprite_height\<rparr> # blits))
         else draw_stripes depth_buffer frame_idx transform_y sprite_left sprite_width
                sprite_height draw_start_y rest)
     else draw_stripes depth_buffer frame_idx transform_y sprite_left sprite_width
            sprite_height draw_start_y rest)"

definition camera_det :: "Player \<Rightarrow> real" where
  "camera_det player = plane_x player * dir_y player - dir_x player * plane_y player"

text \<open>The camera-space coordinates \<^verbatim>\<open>(transform_x, transform_y)\<close> of a world position.\<close>

definition camera_transform :: "real \<Rightarrow> Player \<Rightarrow> real \<Rightarrow> real \<Rightarrow> real \<times> real" where
  "camera_transform inv_det player wx wy =
    (let sprite_x = wx - player_x player;
         sprite_y = wy - player_y player;
         transform_x = inv_det * (dir_y player * sprite_x - dir_x player * sprite_y);
         transform_y = inv_det * (- plane_y player * sprite_x + plane_x player * sprite_y)
     in (transform_x, transform_y))"

text \<open>
  The clipping of a billboard of the given size around a screen column, and its
  stripes. The source leaves the loop body with \<^verbatim>\<open>continue\<close> when nothing is left.
\<close>

definition draw_billboard ::
  "pyfloat list \<Rightarrow> int \<Rightarrow> real \<Rightarrow> int \<Rightarrow> int \<Rightarrow> int \<Rightarrow> error + blit list" where
  "draw_billboard depth_buffer frame_idx transform_y sprite_screen_x sprite_width sprite_height =
    (let draw_start_y = max (- sprite_height div 2 + SCREEN_HEIGHT div 2) 0;
         draw_end_y = min (sprite_height div 2 + SCREEN_HEIGHT div 2) (SCREEN_HEIGHT - 1);
         draw_start_x = max (- sprite_width div 2 + sprite_screen_x) 0;
         draw_end_x = min (sprite_width div 2 + sprite_screen_x) (SCREEN_WIDTH - 1)
     in if draw_start_x \<ge> draw_end_x \<or> draw_start_y \<ge> draw_end_y then Inr []
        else
          (let sprite_left = - sprite_width div 2 + sprite_screen_x
           in draw_stripes depth_buffer frame_idx transform_y sprite_left sprite_width
                sprite_height draw_start_y [draw_start_x .. draw_end_x - 1]))"

text \<open>The body of the loop of \<^verbatim>\<open>draw_monsters\<close>, for one monster.\<close>

definition draw_monster ::
  "real \<Rightarrow> Player \<Rightarrow> pyfloat list \<Rightarrow> nat \<Rightarrow> Monster \<Rightarrow> error + blit list" where
  "draw_monster inv_det player depth_buffer frame_count monster =
    (case camera_transform inv_det player (monster_x monster) (monster_y monster) of
       (transform_x, transform_y) \<Rightarrow>
         if transform_y \<le> 0 then Inr []
         else
           bind_err (py_mod (py_int (anim_timer monster * real_of_int MONSTER_ANIM_FPS))
                       (int frame_count)) (\<lambda>frame_idx.
           bind_err (py_truediv transform_x transform_y) (\<lambda>ratio.
           bind_err (py_truediv (real_of_int SCREEN_HEIGHT) transform_y) (\<lambda>scale.
             (let sprite_screen_x = py_int ((real_of_int SCREEN_WIDTH / 2) * (1 + ratio));
                  sprite_height = max 1 \<bar>py_int scale\<bar>;
                  sprite_width = max 1 sprite_height
              in draw_billboard depth_buffer frame_idx transform_y sprite_screen_x
                   sprite_width sprite_height)))))"

fun draw_each :: "('a \<Rightarrow> error + blit list) \<Rightarrow> 'a list \<Rightarrow> error + blit list" where
  "draw_each f [] = Inr []"
| "draw_each f (b # bs) =
    bind_err (f b) (\<lambda>blits. bind_err (draw_each f bs) (\<lambda>more_blits. Inr (blits @ more_blits)))"

definition draw_monsters ::
  "Player \<Rightarrow> Monster list \<Rightarrow> pyfloat list \<Rightarrow> nat \<Rightarrow> error + blit list" where
  "draw_monsters player monsters depth_buffer frame_count =
    (let det = camera_det player in
     if det = 0 then Inr []
     else bind_err (py_truediv 1 det) (\<lambda>inv_det.
       if frame_count = 0 then Inr []
       else draw_each (draw_monster inv_det player depth_buffer frame_count) monsters))"

text \<open>
  The body of the loop of \<^verbatim>\<open>draw_collectibles\<close>, for one pellet; the last argument is
  the size of the pellet sprite, \<^verbatim>\<open>sprite.get_size()\<close>.
\<close>

definition draw_pellet ::
  "real \<Rightarrow> Player \<Rightarrow> pyfloat list \<Rightarrow> int \<times> int \<Rightarrow> Pellet \<Rightarrow> error + blit list" where
  "draw_pellet inv_det player depth_buffer sprite_size pellet =
    (if collected pellet then Inr []
     else case camera_transform inv_det player (pellet_x pellet) (pellet_y pellet) of
       (transform_x, transform_y) \<Rightarrow>
         if transform_y \<le> 0 then Inr []
         else
           bind_err (py_truediv transform_x transform_y) (\<lambda>ratio.
           bind_err (py_truediv (real_of_int SCREEN_HEIGHT) transform_y) (\<lambda>scale.
           bind_err (py_truediv (real_of_int (fst sprite_size)) (real_of_int (snd sprite_size)))
             (\<lambda>aspect.
             (let sprite_screen_x = py_int ((real_of_int SCREEN_WIDTH / 2) * (1 + ratio));
                  sprite_height = max 1 \<bar>py_int (scale * 0.35)\<bar>;
                  sprite_width = max 1 (py_int (real_of_int sprite_height * aspect))
              in draw_billboard depth_buffer 0 transform_y sprite_screen_x
                   sprite_width sprite_height)))))"

definition draw_collectibles ::
  "Player \<Rightarrow> Pellet list \<Rightarrow> pyfloat list \<Rightarrow> int \<times> int \<Rightarrow> error + blit list" where
  "draw_collectibles player pellets depth_buffer sprite_size =
    (let det = camera_det player in
     if det = 0 \<or> pellets = [] then Inr []
     else bind_err (py_truediv 1 det) (\<lambda>inv_det.
       draw_each (draw_pellet inv_det player depth_buffer sprite_size) pellets))"

text \<open>The sprite that \<^verbatim>\<open>load_pellet_sprite\<close> builds is 26 pixels wide and high.\<close>

definition pellet_sprite_size :: "int \<times> int" where
  "pellet_sprite_size = (26, 26)"

section \<open>The ray caster\<close>

definition WALL_COLORS :: "char \<Rightarrow> (int \<times> int \<times> int) option" where
  "WALL_COLORS =
    [CHR ''1'' \<mapsto> (210, 210, 220), CHR ''2'' \<mapsto> (200, 150, 60), CHR ''3'' \<mapsto> (160, 80, 80),
     CHR ''4'' \<mapsto> (80, 120, 200), CHR ''5'' \<mapsto> (120, 200, 120)]"

text \<open>The variables that the traversal loop of \<^verbatim>\<open>cast_rays\<close> changes.\<close>

record ray_state =
  map_x :: int
  map_y :: int
  side_dist_x :: pyfloat
  side_dist_y :: pyfloat
  hit :: bool
  side :: int
  tile :: char
  steps :: int

definition max_steps :: int where
  "max_steps = MAP_WIDTH * MAP_HEIGHT"

text \<open>One pass through the body of the loop.\<close>

definition dda_step :: "pyfloat \<Rightarrow> pyfloat \<Rightarrow> int \<Rightarrow> int \<Rightarrow> ray_state \<Rightarrow> ray_state" where
  "dda_step delta_dist_x delta_dist_y step_x step_y st =
    (let st1 = st\<lparr>steps := steps st + 1\<rparr>;
         st2 = (if fl_less (side_dist_x st1) (side_dist_y st1)
                then st1\<lparr>side_dist_x := fl_add (side_dist_x st1) delta_dist_x,
                         map_x := map_x st1 + step_x, side := 0\<rparr>
                else st1\<lparr>side_dist_y := fl_add (side_dist_y st1) delta_dist_y,
                         map_y := map_y st1 + step_y, side := 1\<rparr>)
     in if map_x st2 < 0 \<or> map_x st2 \<ge> MAP_WIDTH \<or> map_y st2 < 0 \<or> map_y st2 \<ge> MAP_HEIGHT
        then st2\<lparr>hit := True, tile := CHR ''1''\<rparr>
        else if WORLD_MAP ! nat (map_y st2) ! nat (map_x st2) \<noteq> CHR ''0''
        then st2\<lparr>tile := WORLD_MAP ! nat (map_y st2) ! nat (map_x st2), hit := True\<rparr>
        else st2)"

function dda_loop :: "pyfloat \<Rightarrow> pyfloat \<Rightarrow> int \<Rightarrow> int \<Rightarrow> ray_state \<Rightarrow> ray_state" where
  "dda_loop delta_dist_x delta_dist_y step_x step_y st =
    (if \<not> hit st \<and> steps st < max_steps
     then dda_loop delta_dist_x delta_dist_y step_x step_y
            (dda_step delta_dist_x delta_dist_y step_x step_y st)
     else st)"
  by pat_completeness auto

termination dda_loop
  by (relation "measure (\<lambda>(ddx, ddy, sx, sy, st). nat (max_steps - steps st))")
    (auto simp: dda_step_def Let_def)

declare dda_loop.simps [simp del]

text \<open>What \<^verbatim>\<open>cast_rays\<close> draws in one column, and writes to the depth buffer.\<close>

record wall_slice =
  draw_start :: int
  draw_end :: int
  color :: "int \<times> int \<times> int"
  perp_wall_dist :: pyfloat

text \<open>The ray of a column and the state in which its traversal starts.\<close>

definition ray_dir :: "Player \<Rightarrow> int \<Rightarrow> real \<times> real" where
  "ray_dir player column =
    (let camera_x = 2 * real_of_int column / real_of_int SCREEN_WIDTH - 1
     in (dir_x player + plane_x player * camera_x, dir_y player + plane_y player * camera_x))"

definition delta_dist :: "real \<Rightarrow> error + pyfloat" where
  "delta_dist ray_component =
    (if ray_component \<noteq> 0
     then bind_err (py_truediv 1 ray_component) (\<lambda>q. Inr (Fin \<bar>q\<bar>))
     else Inr PosInf)"

definition ray_step :: "real \<Rightarrow> int" where
  "ray_step ray_component = (if ray_component < 0 then - 1 else 1)"

definition side_dist_init :: "real \<Rightarrow> real \<Rightarrow> int \<Rightarrow> pyfloat \<Rightarrow> pyfloat" where
  "side_dist_init ray_component pos map_pos delta =
    (if ray_component < 0 then fl_scale (pos - real_of_int map_pos) delta
     else fl_scale (real_of_int map_pos + 1.0 - pos) delta)"

definition ray_init :: "Player \<Rightarrow> real \<times> real \<Rightarrow> pyfloat \<Rightarrow> pyfloat \<Rightarrow> ray_state" where
  "ray_init player ray delta_dist_x delta_dist_y =
    (let mx = py_int (player_x player); my = py_int (player_y player)
     in \<lparr>map_x = mx, map_y = my,
         side_dist_x = side_dist_init (fst ray) (player_x player) mx delta_dist_x,
         side_dist_y = side_dist_init (snd ray) (player_y player) my delta_dist_y,
         hit = False, side = 0, tile = CHR ''1'', steps = 0\<rparr>)"

definition shade :: "int \<times> int \<times> int \<Rightarrow> int \<times> int \<times> int" where
  "shade c = (case c of (r, g, b) \<Rightarrow>
     (py_int (real_of_int r * 0.65), py_int (real_of_int g * 0.65), py_int (real_of_int b * 0.65)))"

text \<open>
  The body of the loop over the columns: \<open>Inr None\<close> when the ray hits nothing within
  the step cap (the source goes on to the next column), \<open>Inr (Some w)\<close> when the slice
  \<open>w\<close> is drawn.
\<close>

definition cast_column :: "Player \<Rightarrow> int \<Rightarrow> error + wall_slice option" where
  "cast_column player column =
    (let ray = ray_dir player column in
     bind_err (delta_dist (fst ray)) (\<lambda>delta_dist_x.
     bind_err (delta_dist (snd ray)) (\<lambda>delta_dist_y.
       (let st = dda_loop delta_dist_x delta_dist_y (ray_step (fst ray)) (ray_step (snd ray))
                   (ray_init player ray delta_dist_x delta_dist_y)
        in if \<not> hit st then Inr None
           else
             (let perp = (if side st = 0 then fl_sub (side_dist_x st) delta_dist_x
                          else fl_sub (side_dist_y st) delta_dist_y);
                  perp = py_max perp (Fin 0.0001)
              in bind_err (fl_truediv (real_of_int SCREEN_HEIGHT) perp) (\<lambda>q.
                 bind_err (fl_int q) (\<lambda>line_height.
                   (let start_row = max (- line_height div 2 + SCREEN_HEIGHT div 2) 0;
                        end_row = min (line_height div 2 + SCREEN_HEIGHT div 2) (SCREEN_HEIGHT - 1);
                        base_color = (case WALL_COLORS (tile st) of
                                        Some c \<Rightarrow> c | None \<Rightarrow> (180, 180, 180));
                        base_color = (if side st = 1 then shade base_color else base_color)
                    in Inr (Some \<lparr>draw_start = start_row, draw_end = end_row,
                                  color = base_color, perp_wall_dist = perp\<rparr>)))))))))"

text \<open>
  The loop over the columns: the depth buffer, which starts at infinity everywhere,
  and the slices drawn, with their columns.
\<close>

fun cast_columns ::
  "Player \<Rightarrow> int list \<Rightarrow> pyfloat list \<Rightarrow> error + pyfloat list \<times> (int \<times> wall_slice) list" where
  "cast_columns player [] depth_buffer = Inr (depth_buffer, [])"
| "cast_columns player (column # rest) depth_buffer =
    bind_err (cast_column player column) (\<lambda>result.
      case result of
        None \<Rightarrow> cast_columns player rest depth_buffer
      | Some w \<Rightarrow>
          bind_err (cast_columns player rest (depth_buffer[nat column := perp_wall_dist w]))
            (\<lambda>(buffer, slices). Inr (buffer, (column, w) # slices)))"

definition cast_rays :: "Player \<Rightarrow> error + pyfloat list \<times> (int \<times> wall_slice) list" where
  "cast_rays player =
    cast_columns player [0 .. SCREEN_WIDTH - 1] (replicate (nat SCREEN_WIDTH) PosInf)"

section \<open>Properties\<close>

lemma MAP_WIDTH_eq: "MAP_WIDTH = 21"
  by (simp add: MAP_WIDTH_def WORLD_MAP_def MAP_LAYOUT_def)

lemma MAP_HEIGHT_eq: "MAP_HEIGHT = 19"
  by (simp add: MAP_HEIGHT_def WORLD_MAP_def MAP_LAYOUT_def)

lemma move_entity_not_blocking:
  assumes "\<not> is_blocking x y"
  shows "\<not> is_blocking (fst (move_entity x y mx my)) (snd (move_entity x y mx my))"
  using assms by (simp add: move_entity_def Let_def)

lemma move_sequence_not_blocking:
  "\<not> is_blocking (fst pos) (snd pos) \<Longrightarrow> p \<in> set (move_sequence pos ds) \<Longrightarrow>
   \<not> is_blocking (fst p) (snd p)"
proof (induction ds arbitrary: pos)
  case Nil
  then show ?case by simp
next
  case (Cons d ds)
  let ?q = "move_entity (fst pos) (snd pos) (fst d) (snd d)"
  have q: "\<not> is_blocking (fst ?q) (snd ?q)"
    using Cons.prems(1) by (rule move_entity_not_blocking)
  from Cons.prems(2) have "p = ?q \<or> p \<in> set (move_sequence ?q ds)"
    by (simp add: Let_def)
  then show ?case
  proof
    assume "p = ?q"
    with q show ?thesis by simp
  next
    assume "p \<in> set (move_sequence ?q ds)"
    with Cons.IH [OF q] show ?thesis by blast
  qed
qed


lemma is_blocking_numeral_simps:
  "is_blocking x y =
    (if x < 0 \<or> y < 0 \<or> x \<ge> 21 \<or> y \<ge> 19 then True
     else WORLD_MAP ! nat (py_int y) ! nat (py_int x) \<noteq> CHR ''0'')"
  by (simp add: is_blocking_def MAP_WIDTH_eq MAP_HEIGHT_eq)

text \<open>
  C2. From any starting position that is not blocking, and for any sequence of
  displacement pairs, every position that iterating \<^const>\<open>move_entity\<close> reaches is
  outside the blocking tiles. A diagonal displacement into a wall slides: when only the
  horizontal component is blocked the vertical one is kept, and when the horizontal one
  is free and the vertical one is then blocked the horizontal one is kept.
\<close>

theorem move_entity_never_blocking:
  assumes "\<not> is_blocking x y"
  shows "(\<forall>p \<in> set (move_sequence (x, y) ds). \<not> is_blocking (fst p) (snd p))
    \<and> (is_blocking (x + mx) y \<and> \<not> is_blocking x (y + my)
          \<longrightarrow> move_entity x y mx my = (x, y + my))
    \<and> (\<not> is_blocking (x + mx) y \<and> is_blocking (x + mx) (y + my)
          \<longrightarrow> move_entity x y mx my = (x + mx, y))"
proof (intro conjI ballI impI)
  fix p assume "p \<in> set (move_sequence (x, y) ds)"
  with assms show "\<not> is_blocking (fst p) (snd p)"
    using move_sequence_not_blocking [of "(x, y)" p ds] by simp
next
  assume "is_blocking (x + mx) y \<and> \<not> is_blocking x (y + my)"
  then show "move_entity x y mx my = (x, y + my)"
    by (simp add: move_entity_def Let_def)
next
  assume "\<not> is_blocking (x + mx) y \<and> is_blocking (x + mx) (y + my)"
  then show "move_entity x y mx my = (x + mx, y)"
    by (simp add: move_entity_def Let_def)
qed

theorem move_entity_never_blocking_witness:
  "\<not> is_blocking 3.5 3.5
   \<and> move_entity 3.5 3.5 (- 0.3) (- 0.8) = (3.2, 3.5)
   \<and> \<not> is_blocking 3.2 3.5"
proof -
  have start: "\<not> is_blocking 3.5 3.5"
    by (simp add: is_blocking_numeral_simps py_int_def WORLD_MAP_def MAP_LAYOUT_def)
  have free: "\<not> is_blocking (3.5 + (- 0.3)) 3.5"
    by (simp add: is_blocking_numeral_simps py_int_def WORLD_MAP_def MAP_LAYOUT_def)
  have wall: "is_blocking (3.5 + (- 0.3)) (3.5 + (- 0.8))"
    by (simp add: is_blocking_numeral_simps py_int_def WORLD_MAP_def MAP_LAYOUT_def)
  note inst = move_entity_never_blocking
    [OF start, of "[(- 0.3, - 0.8)]" "- 0.3" "- 0.8"]
  from inst free wall have slide: "move_entity 3.5 3.5 (- 0.3) (- 0.8) = (3.5 + (- 0.3), 3.5)"
    by blast
  from inst have "\<not> is_blocking (fst (move_entity 3.5 3.5 (- 0.3) (- 0.8)))
      (snd (move_entity 3.5 3.5 (- 0.3) (- 0.8)))"
    by (simp add: Let_def)
  with slide start show ?thesis by simp
qed


subsection \<open>Rotation\<close>

lemma rotate_player_fields:
  "dir_x (rotate_player p a) = dir_x p * cos a - dir_y p * sin a"
  "dir_y (rotate_player p a) = dir_x p * sin a + dir_y p * cos a"
  "plane_x (rotate_player p a) = plane_x p * cos a - plane_y p * sin a"
  "plane_y (rotate_player p a) = plane_x p * sin a + plane_y p * cos a"
  "player_x (rotate_player p a) = player_x p"
  "player_y (rotate_player p a) = player_y p"
  by (simp_all add: rotate_player_def Let_def)

lemma rotation_dot:
  fixes a b c d :: real
  shows "(a * cos t - b * sin t) * (c * cos t - d * sin t)
       + (a * sin t + b * cos t) * (c * sin t + d * cos t) = a * c + b * d"
proof -
  have "(a * cos t - b * sin t) * (c * cos t - d * sin t)
       + (a * sin t + b * cos t) * (c * sin t + d * cos t)
       = (a * c + b * d) * ((sin t)\<^sup>2 + (cos t)\<^sup>2)"
    by (simp only: power2_eq_square algebra_simps)
  then show ?thesis by simp
qed

lemma rotation_norm:
  fixes a b :: real
  shows "(a * cos t - b * sin t)\<^sup>2 + (a * sin t + b * cos t)\<^sup>2 = a\<^sup>2 + b\<^sup>2"
  using rotation_dot [of a t b a b] by (simp add: power2_eq_square)

text \<open>
  C6. \<^const>\<open>rotate_player\<close> applies one rotation matrix, by the given angle, to the
  direction and to the plane vector. The magnitude of each vector is preserved, and so
  is their inner product (hence the angle between them, perpendicularity and the field
  of view). Over the reals the preservation is exact.
\<close>

theorem rotate_player_preserves:
  "dir_x (rotate_player p a) = cos a * dir_x p - sin a * dir_y p
   \<and> dir_y (rotate_player p a) = sin a * dir_x p + cos a * dir_y p
   \<and> plane_x (rotate_player p a) = cos a * plane_x p - sin a * plane_y p
   \<and> plane_y (rotate_player p a) = sin a * plane_x p + cos a * plane_y p
   \<and> hypot (dir_x (rotate_player p a)) (dir_y (rotate_player p a))
       = hypot (dir_x p) (dir_y p)
   \<and> hypot (plane_x (rotate_player p a)) (plane_y (rotate_player p a))
       = hypot (plane_x p) (plane_y p)
   \<and> dir_x (rotate_player p a) * plane_x (rotate_player p a)
       + dir_y (rotate_player p a) * plane_y (rotate_player p a)
       = dir_x p * plane_x p + dir_y p * plane_y p"
  by (simp add: rotate_player_fields hypot_def rotation_norm rotation_dot mult.commute)

subsection \<open>Collecting pellets\<close>

lemma collect_pellets_length:
  "length (fst (collect_pellets player pellets r)) = length pellets"
  by (induction pellets) (auto simp: Let_def split: prod.splits)

lemma collect_pellets_fst_Cons:
  "fst (collect_pellets player (pellet # rest) r) =
     (if collected pellet then pellet
      else if hypot (player_x player - pellet_x pellet) (player_y player - pellet_y pellet) < r
      then pellet\<lparr>collected := True\<rparr>
      else pellet) # fst (collect_pellets player rest r)"
  by (simp add: Let_def split: prod.splits)

lemma collect_pellets_nth:
  "i < length pellets \<Longrightarrow>
   fst (collect_pellets player pellets r) ! i =
     (if collected (pellets ! i) then pellets ! i
      else if hypot (player_x player - pellet_x (pellets ! i))
                (player_y player - pellet_y (pellets ! i)) < r
      then (pellets ! i)\<lparr>collected := True\<rparr>
      else pellets ! i)"
proof (induction pellets arbitrary: i)
  case Nil
  then show ?case by simp
next
  case (Cons pellet rest)
  show ?case
  proof (cases i)
    case 0
    then show ?thesis by (simp only: collect_pellets_fst_Cons nth_Cons_0)
  next
    case (Suc j)
    with Cons.prems have "j < length rest" by simp
    from Cons.IH [OF this] Suc show ?thesis
      by (simp only: collect_pellets_fst_Cons nth_Cons_Suc)
  qed
qed

lemma collect_pellets_collected:
  "i < length pellets \<Longrightarrow>
   collected (fst (collect_pellets player pellets default_radius) ! i) \<longleftrightarrow>
     collected (pellets ! i) \<or> in_capture_radius player (pellets ! i)"
  by (simp add: collect_pellets_nth in_capture_radius_def default_radius_def)

lemma collect_pellets_position:
  "i < length pellets \<Longrightarrow>
   pellet_x (fst (collect_pellets player pellets r) ! i) = pellet_x (pellets ! i)
   \<and> pellet_y (fst (collect_pellets player pellets r) ! i) = pellet_y (pellets ! i)"
  by (simp add: collect_pellets_nth)

lemma collect_sequence_length:
  "length (collect_sequence pellets players) = length pellets"
  by (induction players arbitrary: pellets) (simp_all add: collect_pellets_length)

lemma collect_sequence_collected:
  "i < length pellets \<Longrightarrow>
   collected (collect_sequence pellets players ! i) \<longleftrightarrow>
     collected (pellets ! i) \<or> (\<exists>player \<in> set players. in_capture_radius player (pellets ! i))"
proof (induction players arbitrary: pellets)
  case Nil
  then show ?case by simp
next
  case (Cons player players)
  let ?next = "fst (collect_pellets player pellets default_radius)"
  have len: "i < length ?next"
    using Cons.prems by (simp add: collect_pellets_length)
  have same: "in_capture_radius q (?next ! i) = in_capture_radius q (pellets ! i)" for q
    using collect_pellets_position [OF Cons.prems, of player default_radius]
    by (simp add: in_capture_radius_def)
  show ?case
    using Cons.IH [OF len] collect_pellets_collected [OF Cons.prems, of player] same
    by auto
qed

text \<open>
  C8. In one call of \<^const>\<open>collect_pellets\<close> with the default radius, a pellet is
  collected afterwards exactly when it was collected before or the player is closer to
  it than 0.35 (Euclidean distance to the pellet's position). Over any sequence of calls
  the flag of a pellet is set exactly when it was set at the start or some call found
  the player within the radius; a flag that is set stays set.
\<close>

theorem collected_monotonic:
  assumes "i < length pellets"
  shows "(collected (fst (collect_pellets player pellets default_radius) ! i) \<longleftrightarrow>
            collected (pellets ! i) \<or> in_capture_radius player (pellets ! i))
    \<and> (collected (collect_sequence pellets players ! i) \<longleftrightarrow>
            collected (pellets ! i)
            \<or> (\<exists>player \<in> set players. in_capture_radius player (pellets ! i)))
    \<and> (collected (pellets ! i) \<longrightarrow> collected (collect_sequence pellets players ! i))
    \<and> (collected (collect_sequence pellets players ! i) \<longrightarrow>
          collected (collect_sequence pellets (players @ later) ! i))"
proof -
  have "collected (collect_sequence pellets players ! i) \<longrightarrow>
          collected (collect_sequence pellets (players @ later) ! i)"
    using collect_sequence_collected [OF assms, of players]
      collect_sequence_collected [OF assms, of "players @ later"] by auto
  then show ?thesis
    using collect_pellets_collected [OF assms, of player]
      collect_sequence_collected [OF assms, of players] by blast
qed


theorem collected_monotonic_witness:
  "(0::nat) < length [\<lparr>pellet_x = 4.5, pellet_y = 4.5, collected = False\<rparr>]
   \<and> collected (fst (collect_pellets (spawn_player\<lparr>player_x := 4.5, player_y := 4.2\<rparr>)
        [\<lparr>pellet_x = 4.5, pellet_y = 4.5, collected = False\<rparr>] default_radius) ! 0)
   \<and> \<not> collected (fst (collect_pellets spawn_player
        [\<lparr>pellet_x = 4.5, pellet_y = 4.5, collected = False\<rparr>] default_radius) ! 0)
   \<and> collected (collect_sequence [\<lparr>pellet_x = 4.5, pellet_y = 4.5, collected = False\<rparr>]
        [spawn_player, spawn_player\<lparr>player_x := 4.5, player_y := 4.2\<rparr>, spawn_player] ! 0)"
proof -
  let ?pellet = "\<lparr>pellet_x = 4.5, pellet_y = 4.5, collected = False\<rparr>"
  let ?near = "spawn_player\<lparr>player_x := 4.5, player_y := 4.2\<rparr>"
  have len: "(0::nat) < length [?pellet]" by simp
  have "sqrt ((3 / 10)\<^sup>2) < (35 / 100 :: real)"
    by (rule real_less_lsqrt) (simp_all add: power2_eq_square)
  then have near: "in_capture_radius ?near ([?pellet] ! 0)"
    by (simp add: in_capture_radius_def hypot_def spawn_player_def)
  have "(35 / 100 :: real) \<le> sqrt (1\<^sup>2 + 1\<^sup>2)"
    by (rule real_le_rsqrt) (simp add: power2_eq_square)
  then have far: "\<not> in_capture_radius spawn_player ([?pellet] ! 0)"
    by (simp add: in_capture_radius_def hypot_def spawn_player_def)
  from collected_monotonic [OF len, of ?near "[]" "[]"] near
  have c1: "collected (fst (collect_pellets ?near [?pellet] default_radius) ! 0)"
    by simp
  from collected_monotonic [OF len, of spawn_player "[]" "[]"] far
  have c2: "\<not> collected (fst (collect_pellets spawn_player [?pellet] default_radius) ! 0)"
    by simp
  from collected_monotonic [OF len, of ?near "[spawn_player, ?near, spawn_player]" "[]"] near
  have c3: "collected (collect_sequence [?pellet] [spawn_player, ?near, spawn_player] ! 0)"
    by simp
  from len c1 c2 c3 show ?thesis by blast
qed


subsection \<open>Path planning\<close>

lemma grid_blocked_numeral_simps:
  "grid_blocked tx ty =
    (if tx < 0 \<or> ty < 0 \<or> tx \<ge> 21 \<or> ty \<ge> 19 then True
     else WORLD_MAP ! nat ty ! nat tx \<noteq> CHR ''0'')"
  by (simp add: grid_blocked_def MAP_WIDTH_eq MAP_HEIGHT_eq)

text \<open>
  C10. A search from a cell to itself returns the path that holds just that cell, whether
  the cell is blocking or not: the test for equal cells comes before the test of the
  goal. For a blocking goal the result is the empty path exactly when start and goal
  differ.
\<close>

theorem astar_same_cell:
  "astar_path c c = Some (Inr [c])
   \<and> (grid_blocked (fst goal) (snd goal) \<longrightarrow>
        (astar_path start goal = Some (Inr []) \<longleftrightarrow> start \<noteq> goal))"
  by (simp add: astar_path_def)

theorem astar_same_cell_witness:
  "grid_blocked (fst (0 :: int, 0 :: int)) (snd (0 :: int, 0 :: int))
   \<and> astar_path (0, 0) (0, 0) = Some (Inr [(0, 0)])
   \<and> astar_path (1, 1) (0, 0) = Some (Inr [])"
proof -
  have blocked: "grid_blocked (fst (0 :: int, 0 :: int)) (snd (0 :: int, 0 :: int))"
    by (simp add: grid_blocked_numeral_simps WORLD_MAP_def MAP_LAYOUT_def)
  from astar_same_cell [of "(0, 0)" "(0, 0)" "(1, 1)"] blocked show ?thesis
    by simp
qed


text \<open>
  The invariant of the search. Scores are bounded below along \<^verbatim>\<open>came_from\<close>, every
  scored cell other than the start has a predecessor, the goal is scored exactly while
  it waits in the queue, and every scored cell either waits in the queue with a priority
  no larger than its score plus the heuristic, or has passed its score on to all its
  open neighbours. While the neighbours of the current cell are being visited, the
  current cell has passed its score on to those already visited.
\<close>

definition relaxed_towards :: "astar_state \<Rightarrow> nat \<Rightarrow> cell \<Rightarrow> bool" where
  "relaxed_towards st v w \<longleftrightarrow>
    grid_blocked (fst w) (snd w) \<or> (\<exists>gw. g_score st w = Some gw \<and> gw \<le> v + 1)"

definition scored_ok :: "cell \<Rightarrow> cell \<Rightarrow> cell set \<Rightarrow> astar_state \<Rightarrow> cell \<Rightarrow> nat \<Rightarrow> bool" where
  "scored_ok goal cur done st u v \<longleftrightarrow>
     (\<exists>p. (p, u) \<in> set (open_heap st) \<and> p \<le> v + heuristic u goal)
   \<or> (\<forall>w \<in> set (neighbors u). relaxed_towards st v w)
   \<or> (u = cur \<and> (\<forall>w \<in> done. relaxed_towards st v w))"

definition parents_ok :: "astar_state \<Rightarrow> bool" where
  "parents_ok st \<longleftrightarrow>
    (\<forall>c u. came_from st c = Some u \<longrightarrow>
       c \<in> set (neighbors u) \<and> \<not> grid_blocked (fst c) (snd c)
       \<and> (\<exists>gu gc. g_score st u = Some gu \<and> g_score st c = Some gc \<and> gu + 1 \<le> gc))"

definition rooted :: "cell \<Rightarrow> astar_state \<Rightarrow> bool" where
  "rooted start st \<longleftrightarrow>
    g_score st start = Some 0
    \<and> (\<forall>c v. g_score st c = Some v \<longrightarrow> c = start \<or> came_from st c \<noteq> None)"

definition all_scored_ok :: "cell \<Rightarrow> cell \<Rightarrow> cell set \<Rightarrow> astar_state \<Rightarrow> bool" where
  "all_scored_ok goal cur done st \<longleftrightarrow>
    (\<forall>u v. g_score st u = Some v \<longrightarrow> scored_ok goal cur done st u v)"

definition goal_queued :: "cell \<Rightarrow> astar_state \<Rightarrow> bool" where
  "goal_queued goal st \<longleftrightarrow>
    (\<forall>p. (p, goal) \<in> set (open_heap st) \<longrightarrow> (\<exists>v. g_score st goal = Some v \<and> v \<le> p))
    \<and> (\<forall>v. g_score st goal = Some v \<longrightarrow> (\<exists>p. (p, goal) \<in> set (open_heap st)))"

definition queue_scored :: "astar_state \<Rightarrow> bool" where
  "queue_scored st \<longleftrightarrow> (\<forall>p c. (p, c) \<in> set (open_heap st) \<longrightarrow> g_score st c \<noteq> None)"

definition mid_inv :: "cell \<Rightarrow> cell \<Rightarrow> cell \<Rightarrow> cell set \<Rightarrow> astar_state \<Rightarrow> bool" where
  "mid_inv start goal cur done st \<longleftrightarrow>
     rooted start st \<and> parents_ok st \<and> all_scored_ok goal cur done st
     \<and> goal_queued goal st \<and> queue_scored st \<and> g_score st cur \<noteq> None"

definition head_inv :: "cell \<Rightarrow> cell \<Rightarrow> astar_state \<Rightarrow> bool" where
  "head_inv start goal st \<longleftrightarrow> mid_inv start goal start (set (neighbors start)) st"

lemma neighbors_neq: "n \<in> set (neighbors c) \<Longrightarrow> n \<noteq> c"
  by (auto simp: neighbors_def split: prod.splits)

lemma head_inv_init: "start \<noteq> goal \<Longrightarrow> head_inv start goal (astar_init start)"
  by (auto simp: head_inv_def mid_inv_def astar_init_def heappush_def scored_ok_def
      rooted_def parents_ok_def all_scored_ok_def goal_queued_def queue_scored_def)

lemma fold_min_le:
  fixes x :: "nat \<times> cell"
  shows "fold min xs x \<le> x \<and> (\<forall>y \<in> set xs. fold min xs x \<le> y)"
proof (induction xs arbitrary: x)
  case Nil
  then show ?case by simp
next
  case (Cons a xs)
  have "fold min xs (min a x) \<le> min a x" using Cons.IH by blast
  moreover have "\<forall>y\<in>set xs. fold min xs (min a x) \<le> y" using Cons.IH by blast
  ultimately show ?case by (auto simp: min_le_iff_disj)
qed

lemma heappop_least:
  assumes "h \<noteq> []" "heappop h = (item, rest)" "x \<in> set h"
  shows "item \<le> x"
proof -
  obtain a xs where h: "h = a # xs" using assms(1) by (cases h) auto
  with assms(2) have item: "item = fold min xs a" by (simp add: heappop_def Let_def)
  from fold_min_le [of xs a] assms(3) h item show ?thesis by auto
qed

lemma heappop_rest:
  assumes "heappop h = (item, rest)"
  shows "set rest \<subseteq> set h" and "x \<in> set h \<Longrightarrow> x \<noteq> item \<Longrightarrow> x \<in> set rest"
proof -
  from assms have rest: "rest = remove1 item h" by (auto simp: heappop_def Let_def)
  show "set rest \<subseteq> set h" unfolding rest by (rule set_remove1_subset)
  show "x \<in> set h \<Longrightarrow> x \<noteq> item \<Longrightarrow> x \<in> set rest"
    unfolding rest by simp
qed

lemma heappop_item:
  assumes "h \<noteq> []" "heappop h = (item, rest)"
  shows "item \<in> set h"
  using heappop_mem [OF assms(1)] assms(2) by simp


lemma pop_inv:
  assumes inv: "head_inv start goal st"
    and ne: "open_heap st \<noteq> []"
    and pop: "heappop (open_heap st) = (item, rest)"
    and ng: "snd item \<noteq> goal"
  shows "mid_inv start goal (snd item) {} (st\<lparr>open_heap := rest\<rparr>)"
proof -
  let ?st = "st\<lparr>open_heap := rest\<rparr>"
  from inv have root: "rooted start st" and par: "parents_ok st"
    and sc: "all_scored_ok goal start (set (neighbors start)) st"
    and gq: "goal_queued goal st" and qs: "queue_scored st"
    by (simp_all add: head_inv_def mid_inv_def)
  note sub = heappop_rest [OF pop]
  have item: "item \<in> set (open_heap st)" by (rule heappop_item [OF ne pop])
  have keep: "(p, u) \<in> set (open_heap st) \<Longrightarrow> u \<noteq> snd item \<Longrightarrow> (p, u) \<in> set rest" for p u
    using sub(2) [of "(p, u)"] by (cases item) auto
  have "scored_ok goal (snd item) {} ?st u v" if "g_score st u = Some v" for u v
  proof (cases "u = snd item")
    case True
    then show ?thesis by (simp add: scored_ok_def)
  next
    case False
    from sc that have "scored_ok goal start (set (neighbors start)) st u v"
      unfolding all_scored_ok_def by blast
    then consider p where "(p, u) \<in> set (open_heap st)" "p \<le> v + heuristic u goal"
      | "\<forall>w \<in> set (neighbors u). relaxed_towards st v w"
      unfolding scored_ok_def by blast
    then show ?thesis
    proof cases
      case 1
      with keep [OF 1(1) False] show ?thesis
        unfolding scored_ok_def by auto
    next
      case 2
      then show ?thesis
        unfolding scored_ok_def relaxed_towards_def by simp
    qed
  qed
  then have 1: "all_scored_ok goal (snd item) {} ?st"
    unfolding all_scored_ok_def by simp
  have 2: "g_score ?st (snd item) \<noteq> None"
    using qs item unfolding queue_scored_def by (cases item) auto
  have 3: "goal_queued goal ?st"
    unfolding goal_queued_def
  proof (intro conjI allI impI)
    fix p assume "(p, goal) \<in> set (open_heap ?st)"
    then have "(p, goal) \<in> set (open_heap st)" using sub(1) by auto
    with gq show "\<exists>v. g_score ?st goal = Some v \<and> v \<le> p"
      unfolding goal_queued_def by simp
  next
    fix v assume "g_score ?st goal = Some v"
    with gq obtain p where "(p, goal) \<in> set (open_heap st)"
      unfolding goal_queued_def by auto
    from keep [OF this] ng show "\<exists>p. (p, goal) \<in> set (open_heap ?st)" by auto
  qed
  have 4: "queue_scored ?st"
    using qs sub(1) unfolding queue_scored_def by (simp add: subset_iff) blast
  have 5: "rooted start ?st" using root by (simp add: rooted_def)
  have 6: "parents_ok ?st" using par by (simp add: parents_ok_def)
  from 1 2 3 4 5 6 show ?thesis by (simp add: mid_inv_def)
qed


lemma heuristic_self: "heuristic c c = 0"
  by (simp add: heuristic_def)

lemma scored_ok_insert:
  assumes "scored_ok goal cur D st u v" and "u = cur \<Longrightarrow> relaxed_towards st v n"
  shows "scored_ok goal cur (insert n D) st u v"
  using assms unfolding scored_ok_def by blast

definition lowered :: "astar_state \<Rightarrow> astar_state \<Rightarrow> bool" where
  "lowered st st' \<longleftrightarrow>
    (\<forall>c x. g_score st c = Some x \<longrightarrow> (\<exists>x'. g_score st' c = Some x' \<and> x' \<le> x))
    \<and> set (open_heap st) \<subseteq> set (open_heap st')"

lemma relaxed_towards_lowered:
  "relaxed_towards st v w \<Longrightarrow> lowered st st' \<Longrightarrow> relaxed_towards st' v w"
  unfolding relaxed_towards_def lowered_def by (meson le_trans)

lemma scored_ok_lowered:
  assumes "scored_ok goal cur D st u v" and "lowered st st'"
  shows "scored_ok goal cur D st' u v"
proof -
  from assms(2) have sub: "set (open_heap st) \<subseteq> set (open_heap st')"
    by (simp add: lowered_def)
  from assms(1) consider p where "(p, u) \<in> set (open_heap st)" "p \<le> v + heuristic u goal"
    | "\<forall>w \<in> set (neighbors u). relaxed_towards st v w"
    | "u = cur" "\<forall>w \<in> D. relaxed_towards st v w"
    unfolding scored_ok_def by blast
  then show ?thesis
  proof cases
    case 1
    with sub have "(p, u) \<in> set (open_heap st')" by blast
    with 1(2) show ?thesis unfolding scored_ok_def by blast
  next
    case 2
    then have "\<forall>w \<in> set (neighbors u). relaxed_towards st' v w"
      using relaxed_towards_lowered [OF _ assms(2)] by blast
    then show ?thesis unfolding scored_ok_def by blast
  next
    case 3
    then have "\<forall>w \<in> D. relaxed_towards st' v w"
      using relaxed_towards_lowered [OF _ assms(2)] by blast
    with 3(1) show ?thesis unfolding scored_ok_def by blast
  qed
qed

lemma relax_inv:
  assumes inv: "mid_inv start goal cur D st" and n: "n \<in> set (neighbors cur)"
  shows "\<exists>st'. relax goal cur st n = Inr st' \<and> mid_inv start goal cur (insert n D) st'"
proof -
  from inv have root: "rooted start st" and par: "parents_ok st"
    and sc: "all_scored_ok goal cur D st"
    and gq: "goal_queued goal st" and qs: "queue_scored st"
    and cur: "g_score st cur \<noteq> None"
    by (simp_all add: mid_inv_def)
  from cur obtain gc where gc: "g_score st cur = Some gc" by blast
  have ncur: "n \<noteq> cur" using n by (rule neighbors_neq)
  let ?improve = "case g_score st n of None \<Rightarrow> True | Some old \<Rightarrow> gc + 1 < old"
  show ?thesis
  proof (cases "grid_blocked (fst n) (snd n) \<or> \<not> ?improve")
    case True
    then have same: "relax goal cur st n = Inr st"
      by (auto simp: relax_def gc Let_def split: option.splits)
    have rel: "relaxed_towards st gc n"
      using True unfolding relaxed_towards_def by (auto split: option.splits)
    have "all_scored_ok goal cur (insert n D) st"
      unfolding all_scored_ok_def
    proof (intro allI impI)
      fix u v assume uv: "g_score st u = Some v"
      with sc have "scored_ok goal cur D st u v" unfolding all_scored_ok_def by blast
      moreover have "relaxed_towards st v n" if "u = cur"
        using that uv gc rel by simp
      ultimately show "scored_ok goal cur (insert n D) st u v"
        by (rule scored_ok_insert)
    qed
    with inv same show ?thesis by (simp add: mid_inv_def)
  next
    case False
    then have open_n: "\<not> grid_blocked (fst n) (snd n)" and imp: "?improve" by simp_all
    let ?t = "gc + 1"
    let ?st = "st\<lparr>came_from := (came_from st)(n \<mapsto> cur),
                  g_score := (g_score st)(n \<mapsto> ?t),
                  open_heap := heappush (open_heap st) (?t + heuristic n goal, n)\<rparr>"
    have step: "relax goal cur st n = Inr ?st"
      using open_n imp by (auto simp: relax_def gc Let_def split: option.splits)
    have nstart: "n \<noteq> start"
    proof
      assume "n = start"
      with root have "g_score st n = Some 0" by (simp add: rooted_def)
      with imp show False by simp
    qed
    have low: "lowered st ?st"
      unfolding lowered_def using imp
      by (auto simp: heappush_def split: option.splits)
    have g_other: "g_score ?st c = g_score st c" if "c \<noteq> n" for c
      using that by simp
    have 1: "rooted start ?st"
      using root nstart unfolding rooted_def by auto
    have 2: "parents_ok ?st"
      unfolding parents_ok_def
    proof (intro allI impI)
      fix c u assume cu: "came_from ?st c = Some u"
      show "c \<in> set (neighbors u) \<and> \<not> grid_blocked (fst c) (snd c)
         \<and> (\<exists>gu gc. g_score ?st u = Some gu \<and> g_score ?st c = Some gc \<and> gu + 1 \<le> gc)"
      proof (cases "c = n")
        case True
        with cu have "u = cur" by simp
        with True n open_n gc ncur show ?thesis by simp
      next
        case False
        with cu have old: "came_from st c = Some u" by simp
        with par obtain gu gv where a: "c \<in> set (neighbors u)" "\<not> grid_blocked (fst c) (snd c)"
          and g: "g_score st u = Some gu" "g_score st c = Some gv" "gu + 1 \<le> gv"
          unfolding parents_ok_def by blast
        from low g(1) obtain gu' where "g_score ?st u = Some gu'" "gu' \<le> gu"
          unfolding lowered_def by blast
        with a g False show ?thesis by auto
      qed
    qed
    have 3: "all_scored_ok goal cur (insert n D) ?st"
      unfolding all_scored_ok_def
    proof (intro allI impI)
      fix u v assume uv: "g_score ?st u = Some v"
      show "scored_ok goal cur (insert n D) ?st u v"
      proof (cases "u = n")
        case True
        with uv have "v = ?t" by simp
        with True show ?thesis
          unfolding scored_ok_def by (auto simp: heappush_def)
      next
        case False
        with uv have old: "g_score st u = Some v" by simp
        with sc have "scored_ok goal cur D st u v" unfolding all_scored_ok_def by blast
        then have a: "scored_ok goal cur D ?st u v" using low by (rule scored_ok_lowered)
        have "relaxed_towards ?st v n" if "u = cur"
        proof -
          from that old gc have "v = gc" by simp
          then show ?thesis unfolding relaxed_towards_def by simp
        qed
        with a show ?thesis by (rule scored_ok_insert)
      qed
    qed
    have 4: "goal_queued goal ?st"
      unfolding goal_queued_def
    proof (intro conjI allI impI)
      fix p assume "(p, goal) \<in> set (open_heap ?st)"
      then consider "n = goal" "p = ?t + heuristic n goal" | "(p, goal) \<in> set (open_heap st)"
        by (auto simp: heappush_def)
      then show "\<exists>v. g_score ?st goal = Some v \<and> v \<le> p"
      proof cases
        case 1
        then show ?thesis by (simp add: heuristic_self)
      next
        case 2
        with gq obtain v where "g_score st goal = Some v" "v \<le> p"
          unfolding goal_queued_def by blast
        with low show ?thesis unfolding lowered_def by (meson le_trans)
      qed
    next
      fix v assume v: "g_score ?st goal = Some v"
      show "\<exists>p. (p, goal) \<in> set (open_heap ?st)"
      proof (cases "goal = n")
        case True
        then show ?thesis by (auto simp: heappush_def)
      next
        case False
        with v have "g_score st goal = Some v" by simp
        with gq obtain p where "(p, goal) \<in> set (open_heap st)"
          unfolding goal_queued_def by blast
        then show ?thesis by (auto simp: heappush_def)
      qed
    qed
    have 5: "queue_scored ?st"
      using qs unfolding queue_scored_def by (auto simp: heappush_def)
    have 6: "g_score ?st cur \<noteq> None" using gc ncur by simp
    from 1 2 3 4 5 6 have "mid_inv start goal cur (insert n D) ?st"
      by (simp only: mid_inv_def) blast
    with step show ?thesis by blast
  qed
qed


lemma relax_all_inv:
  "mid_inv start goal cur D st \<Longrightarrow> set ns \<subseteq> set (neighbors cur) \<Longrightarrow>
   \<exists>st'. relax_all goal cur st ns = Inr st' \<and> mid_inv start goal cur (D \<union> set ns) st'"
proof (induction ns arbitrary: D st)
  case Nil
  then show ?case by simp
next
  case (Cons n ns)
  from Cons.prems(2) have n: "n \<in> set (neighbors cur)" by simp
  from relax_inv [OF Cons.prems(1) n] obtain st1
    where r: "relax goal cur st n = Inr st1" and i: "mid_inv start goal cur (insert n D) st1"
    by blast
  from Cons.prems(2) have "set ns \<subseteq> set (neighbors cur)" by simp
  from Cons.IH [OF i this] obtain st'
    where "relax_all goal cur st1 ns = Inr st'" "mid_inv start goal cur (insert n D \<union> set ns) st'"
    by blast
  with r show ?case by simp
qed

lemma close_inv:
  assumes "mid_inv start goal cur (set (neighbors cur)) st"
  shows "head_inv start goal st"
proof -
  from assms have root: "rooted start st" and sc: "all_scored_ok goal cur (set (neighbors cur)) st"
    by (simp_all add: mid_inv_def)
  have "scored_ok goal start (set (neighbors start)) st u v" if "g_score st u = Some v" for u v
  proof -
    from sc that have "scored_ok goal cur (set (neighbors cur)) st u v"
      unfolding all_scored_ok_def by blast
    then show ?thesis unfolding scored_ok_def by blast
  qed
  then have "all_scored_ok goal start (set (neighbors start)) st"
    unfolding all_scored_ok_def by blast
  moreover from root have "g_score st start \<noteq> None" by (simp add: rooted_def)
  ultimately show ?thesis using assms by (simp add: head_inv_def mid_inv_def)
qed

lemma step_inv:
  assumes inv: "head_inv start goal st"
    and ne: "open_heap st \<noteq> []"
    and pop: "heappop (open_heap st) = (item, rest)"
    and ng: "snd item \<noteq> goal"
  shows "\<exists>st'. relax_all goal (snd item) (st\<lparr>open_heap := rest\<rparr>) (neighbors (snd item)) = Inr st'
          \<and> head_inv start goal st'"
proof -
  from pop_inv [OF inv ne pop ng]
  have "mid_inv start goal (snd item) {} (st\<lparr>open_heap := rest\<rparr>)" .
  from relax_all_inv [OF this subset_refl] obtain st'
    where r: "relax_all goal (snd item) (st\<lparr>open_heap := rest\<rparr>) (neighbors (snd item)) = Inr st'"
      and m: "mid_inv start goal (snd item) (set (neighbors (snd item))) st'"
    by auto
  from close_inv [OF m] r show ?thesis by blast
qed

lemma heuristic_step: "b \<in> set (neighbors a) \<Longrightarrow> heuristic a c \<le> heuristic b c + 1"
  by (cases a; cases b; cases c) (auto simp: neighbors_def heuristic_def)

lemma walk_heuristic: "walk p \<Longrightarrow> heuristic (hd p) (last p) + 1 \<le> length p"
proof (induction p rule: walk.induct)
  case 1
  then show ?case by simp
next
  case (2 c)
  then show ?case by (simp add: heuristic_self)
next
  case (3 a b rest)
  then have "heuristic b (last (b # rest)) + 1 \<le> length (b # rest)" by simp
  moreover from 3 have "heuristic a (last (b # rest)) \<le> heuristic b (last (b # rest)) + 1"
    by (intro heuristic_step) simp
  ultimately show ?case by simp
qed

lemma walk_drop: "walk p \<Longrightarrow> i < length p \<Longrightarrow> walk (drop i p)"
proof (induction p arbitrary: i rule: walk.induct)
  case 1
  then show ?case by simp
next
  case (2 c)
  then show ?case by simp
next
  case (3 a b rest)
  show ?case
  proof (cases i)
    case 0
    with 3 show ?thesis by simp
  next
    case (Suc j)
    with 3 show ?thesis by simp
  qed
qed

lemma walk_nth_step:
  "walk p \<Longrightarrow> Suc i < length p \<Longrightarrow>
   p ! Suc i \<in> set (neighbors (p ! i)) \<and> \<not> grid_blocked (fst (p ! Suc i)) (snd (p ! Suc i))"
proof (induction p arbitrary: i rule: walk.induct)
  case 1
  then show ?case by simp
next
  case (2 c)
  then show ?case by simp
next
  case (3 a b rest)
  show ?case
  proof (cases i)
    case 0
    with 3 show ?thesis by simp
  next
    case (Suc j)
    with 3 show ?thesis by simp
  qed
qed

lemma walk_nth_heuristic:
  assumes "walk p" "i < length p"
  shows "i + heuristic (p ! i) (last p) + 1 \<le> length p"
proof -
  from assms have w: "walk (drop i p)" by (rule walk_drop)
  from assms(2) have "hd (drop i p) = p ! i" by (simp add: hd_drop_conv_nth)
  moreover from assms(2) have "last (drop i p) = last p" by simp
  ultimately show ?thesis using walk_heuristic [OF w] assms(2) by simp
qed


lemma head_inv_scored:
  "head_inv start goal st \<Longrightarrow> g_score st u = Some v \<Longrightarrow>
   scored_ok goal start (set (neighbors start)) st u v"
  unfolding head_inv_def mid_inv_def all_scored_ok_def by blast

lemma head_inv_parts:
  assumes "head_inv start goal st"
  shows "rooted start st" "parents_ok st" "goal_queued goal st" "queue_scored st"
  using assms unfolding head_inv_def mid_inv_def by blast+

lemma frontier:
  assumes inv: "head_inv start goal st" and w: "walk q" and hd: "hd q = start"
  shows "i < length q \<Longrightarrow>
    (\<exists>gi. g_score st (q ! i) = Some gi \<and> gi \<le> i)
    \<or> (\<exists>j p gj. j \<le> i \<and> (p, q ! j) \<in> set (open_heap st) \<and> g_score st (q ! j) = Some gj
          \<and> gj \<le> j \<and> p \<le> gj + heuristic (q ! j) goal)"
proof (induction i)
  case 0
  from head_inv_parts(1) [OF inv] have "g_score st start = Some 0" by (simp add: rooted_def)
  moreover from 0 hd have "q ! 0 = start" by (cases q) auto
  ultimately show ?case by simp
next
  case (Suc i)
  then have "i < length q" by simp
  from Suc.IH [OF this] show ?case
  proof
    assume "\<exists>gi. g_score st (q ! i) = Some gi \<and> gi \<le> i"
    then obtain gi where gi: "g_score st (q ! i) = Some gi" "gi \<le> i" by blast
    from inv gi(1) have "scored_ok goal start (set (neighbors start)) st (q ! i) gi"
      by (rule head_inv_scored)
    then consider p where "(p, q ! i) \<in> set (open_heap st)" "p \<le> gi + heuristic (q ! i) goal"
      | "\<forall>w \<in> set (neighbors (q ! i)). relaxed_towards st gi w"
      unfolding scored_ok_def by blast
    then show ?thesis
    proof cases
      case 1
      with gi have "i \<le> Suc i \<and> (p, q ! i) \<in> set (open_heap st) \<and> g_score st (q ! i) = Some gi
          \<and> gi \<le> i \<and> p \<le> gi + heuristic (q ! i) goal" by simp
      then show ?thesis by blast
    next
      case 2
      from walk_nth_step [OF w Suc.prems] 2
      have "relaxed_towards st gi (q ! Suc i)"
        and "\<not> grid_blocked (fst (q ! Suc i)) (snd (q ! Suc i))" by blast+
      then obtain gw where "g_score st (q ! Suc i) = Some gw" "gw \<le> gi + 1"
        unfolding relaxed_towards_def by blast
      with gi(2) show ?thesis by auto
    qed
  next
    assume "\<exists>j p gj. j \<le> i \<and> (p, q ! j) \<in> set (open_heap st) \<and> g_score st (q ! j) = Some gj
          \<and> gj \<le> j \<and> p \<le> gj + heuristic (q ! j) goal"
    then obtain j p gj where "j \<le> i" "(p, q ! j) \<in> set (open_heap st)"
      "g_score st (q ! j) = Some gj" "gj \<le> j" "p \<le> gj + heuristic (q ! j) goal" by blast
    then have "j \<le> Suc i \<and> (p, q ! j) \<in> set (open_heap st) \<and> g_score st (q ! j) = Some gj
          \<and> gj \<le> j \<and> p \<le> gj + heuristic (q ! j) goal" by simp
    then show ?thesis by blast
  qed
qed

lemma frontier_goal:
  assumes inv: "head_inv start goal st" and q: "path_between start goal q"
  shows "(\<exists>g. g_score st goal = Some g \<and> g + 1 \<le> length q)
    \<or> (\<exists>p c. (p, c) \<in> set (open_heap st) \<and> p + 1 \<le> length q)"
proof -
  from q have ne: "q \<noteq> []" and hd: "hd q = start" and last: "last q = goal" and w: "walk q"
    by (simp_all add: path_between_def)
  let ?m = "length q - 1"
  have m: "?m < length q" using ne by simp
  have qm: "q ! ?m = goal" using ne last by (simp add: last_conv_nth)
  from frontier [OF inv w hd m] show ?thesis
  proof
    assume "\<exists>gi. g_score st (q ! ?m) = Some gi \<and> gi \<le> ?m"
    with qm m show ?thesis by auto
  next
    assume "\<exists>j p gj. j \<le> ?m \<and> (p, q ! j) \<in> set (open_heap st) \<and> g_score st (q ! j) = Some gj
          \<and> gj \<le> j \<and> p \<le> gj + heuristic (q ! j) goal"
    then obtain j p gj where j: "j \<le> ?m" and mem: "(p, q ! j) \<in> set (open_heap st)"
      and b: "gj \<le> j" "p \<le> gj + heuristic (q ! j) goal" by blast
    from j m have "j < length q" by simp
    from walk_nth_heuristic [OF w this] last have "j + heuristic (q ! j) goal + 1 \<le> length q"
      by simp
    with b have "p + 1 \<le> length q" by simp
    with mem show ?thesis by blast
  qed
qed

lemma reconstruct_ok:
  assumes root: "rooted start st" and par: "parents_ok st"
  shows "g_score st c = Some v \<Longrightarrow> acc \<noteq> [] \<Longrightarrow> last acc = c \<Longrightarrow> walk (rev acc) \<Longrightarrow>
    \<exists>q. reconstruct (came_from st) c acc = Some q \<and> walk q \<and> hd q = start
      \<and> last q = hd acc \<and> length q \<le> length acc + v"
proof (induction v arbitrary: c acc rule: less_induct)
  case (less v)
  show ?case
  proof (cases "came_from st c")
    case None
    with root less.prems(1) have c: "c = start" unfolding rooted_def by blast
    have "reconstruct (came_from st) c acc = Some (rev acc)"
      by (subst reconstruct.simps) (simp add: None)
    moreover have "hd (rev acc) = start" using less.prems(2,3) c by (simp add: hd_rev)
    moreover have "last (rev acc) = hd acc" using less.prems(2) by (simp add: last_rev)
    ultimately show ?thesis using less.prems(4) by simp
  next
    case (Some u)
    with par less.prems(1) obtain gu where nb: "c \<in> set (neighbors u)"
      and op: "\<not> grid_blocked (fst c) (snd c)"
      and gu: "g_score st u = Some gu" "gu + 1 \<le> v"
      unfolding parents_ok_def by fastforce
    have eq: "reconstruct (came_from st) c acc = reconstruct (came_from st) u (acc @ [u])"
      by (subst reconstruct.simps) (simp add: Some)
    have "rev acc = c # tl (rev acc)"
      using less.prems(2,3) by (cases "rev acc") (auto simp: hd_rev [symmetric])
    then have w: "walk (rev (acc @ [u]))"
      using less.prems(4) nb op by (metis rev.simps(2) rev_rev_ident rev_append append_Cons append_Nil walk.simps(3))
    from gu(2) have lt: "gu < v" by simp
    from less.IH [OF lt gu(1) _ _ w, of ] obtain q
      where "reconstruct (came_from st) u (acc @ [u]) = Some q" "walk q" "hd q = start"
        "last q = hd (acc @ [u])" "length q \<le> length (acc @ [u]) + gu"
      by auto
    with eq gu(2) less.prems(2) show ?thesis by auto
  qed
qed


lemma astar_loop_exhausted:
  assumes inv: "head_inv start goal st" and empty: "open_heap st = []"
  shows "astar_loop goal st = Some (Inr [])" and "\<not> reachable start goal"
proof -
  show "astar_loop goal st = Some (Inr [])"
    using empty by (subst astar_loop.simps) simp
  show "\<not> reachable start goal"
  proof
    assume "reachable start goal"
    then obtain q where q: "path_between start goal q" unfolding reachable_def by blast
    from frontier_goal [OF inv q] show False
    proof
      assume "\<exists>g. g_score st goal = Some g \<and> g + 1 \<le> length q"
      with head_inv_parts(3) [OF inv] obtain p where "(p, goal) \<in> set (open_heap st)"
        unfolding goal_queued_def by blast
      with empty show False by simp
    next
      assume "\<exists>p c. (p, c) \<in> set (open_heap st) \<and> p + 1 \<le> length q"
      with empty show False by simp
    qed
  qed
qed

lemma astar_loop_found:
  assumes inv: "head_inv start goal st" and ne: "open_heap st \<noteq> []"
    and pop: "heappop (open_heap st) = (item, rest)" and goal: "snd item = goal"
  shows "\<exists>p. astar_loop goal st = Some (Inr p) \<and> shortest_between start goal p"
proof -
  obtain pr where item: "item = (pr, goal)" using goal by (cases item) auto
  have mem: "(pr, goal) \<in> set (open_heap st)"
    using heappop_item [OF ne pop] item by simp
  with head_inv_parts(3) [OF inv] obtain v where v: "g_score st goal = Some v" "v \<le> pr"
    unfolding goal_queued_def by blast
  have "walk (rev [goal])" by simp
  from reconstruct_ok [OF head_inv_parts(1,2) [OF inv] v(1) _ _ this]
  obtain p where rec: "reconstruct (came_from st) goal [goal] = Some p"
    and p: "walk p" "hd p = start" "last p = goal" "length p \<le> 1 + v"
    by auto
  have loop: "astar_loop goal st = Some (Inr p)"
    using ne pop item rec by (subst astar_loop.simps) (simp add: Let_def)
  from p(1) have "p \<noteq> []" by (cases p) auto
  with p have pb: "path_between start goal p" by (simp add: path_between_def)
  have "length p \<le> length q" if q: "path_between start goal q" for q
  proof -
    from frontier_goal [OF inv q] have "v + 1 \<le> length q"
    proof
      assume "\<exists>g. g_score st goal = Some g \<and> g + 1 \<le> length q"
      with v(1) show ?thesis by simp
    next
      assume "\<exists>p c. (p, c) \<in> set (open_heap st) \<and> p + 1 \<le> length q"
      then obtain p' c where e: "(p', c) \<in> set (open_heap st)" "p' + 1 \<le> length q" by blast
      from heappop_least [OF ne pop e(1)] item have "pr \<le> p'"
        by (auto simp: less_eq_prod_def)
      with v(2) e(2) show ?thesis by simp
    qed
    with p(4) show ?thesis by simp
  qed
  with pb loop show ?thesis unfolding shortest_between_def by blast
qed

lemma astar_loop_correct:
  "head_inv start goal st \<Longrightarrow>
   \<exists>p. astar_loop goal st = Some (Inr p)
     \<and> (if reachable start goal then shortest_between start goal p else p = [])"
proof (induction goal st rule: astar_loop.induct)
  case (1 goal st)
  show ?case
  proof (cases "open_heap st = []")
    case True
    from astar_loop_exhausted [OF "1.prems" True] show ?thesis by simp
  next
    case False
    obtain item rest where pop: "heappop (open_heap st) = (item, rest)"
      by (cases "heappop (open_heap st)")
    show ?thesis
    proof (cases "snd item = goal")
      case True
      from astar_loop_found [OF "1.prems" False pop True] obtain p
        where p: "astar_loop goal st = Some (Inr p)" "shortest_between start goal p" by blast
      then have "reachable start goal"
        unfolding reachable_def shortest_between_def by blast
      with p show ?thesis by simp
    next
      case ng: False
      from step_inv [OF "1.prems" False pop ng] obtain st'
        where r: "relax_all goal (snd item) (st\<lparr>open_heap := rest\<rparr>) (neighbors (snd item)) = Inr st'"
          and inv': "head_inv start goal st'" by blast
      have eq: "astar_loop goal st = astar_loop goal st'"
        using False pop ng r by (subst astar_loop.simps) (simp add: Let_def)
      from "1.IH" [OF False pop [symmetric] refl refl ng r inv'] eq show ?thesis by simp
    qed
  qed
qed

lemma walk_last_open:
  assumes "walk q" "2 \<le> length q"
  shows "\<not> grid_blocked (fst (last q)) (snd (last q))"
proof -
  from assms(2) have i: "Suc (length q - 2) < length q" by simp
  from assms(2) have "q \<noteq> []" by auto
  then have "last q = q ! Suc (length q - 2)"
    using assms(2) by (simp add: last_conv_nth Suc_diff_Suc numeral_2_eq_2)
  with walk_nth_step [OF assms(1) i] show ?thesis by simp
qed

text \<open>
  C1, as the code has it. When the goal is reachable from the start, \<^const>\<open>astar_path\<close>
  returns a walk from the start to the goal, both included, and no walk between them is
  shorter. When the start differs from the goal and the goal is blocking or cannot be
  reached, it returns the empty path. In both cases the search returns and raises
  nothing.
\<close>

theorem astar_path_shortest:
  "(reachable start goal \<longrightarrow>
      (\<exists>p. astar_path start goal = Some (Inr p) \<and> shortest_between start goal p))
   \<and> (start \<noteq> goal \<and> (grid_blocked (fst goal) (snd goal) \<or> \<not> reachable start goal) \<longrightarrow>
        astar_path start goal = Some (Inr []))"
proof (cases "start = goal")
  case True
  have "shortest_between goal goal [goal]"
    unfolding shortest_between_def path_between_def
    by (auto simp: Suc_le_eq)
  with True show ?thesis by (simp add: astar_path_def)
next
  case ne: False
  show ?thesis
  proof (cases "grid_blocked (fst goal) (snd goal)")
    case True
    have "\<not> reachable start goal"
    proof
      assume "reachable start goal"
      then obtain q where q: "q \<noteq> []" "hd q = start" "last q = goal" "walk q"
        unfolding reachable_def path_between_def by blast
      with ne have "2 \<le> length q"
        by (cases q rule: walk.cases) auto
      from walk_last_open [OF q(4) this] q(3) True show False by simp
    qed
    with ne True show ?thesis by (simp add: astar_path_def)
  next
    case False
    from astar_loop_correct [OF head_inv_init [OF ne]] obtain p
      where "astar_loop goal (astar_init start) = Some (Inr p)"
        "if reachable start goal then shortest_between start goal p else p = []"
      by blast
    with ne False show ?thesis by (auto simp: astar_path_def)
  qed
qed

theorem astar_path_shortest_witness:
  "reachable (1, 1) (3, 1)
   \<and> (\<exists>p. astar_path (1, 1) (3, 1) = Some (Inr p) \<and> hd p = (1, 1) \<and> last p = (3, 1)
          \<and> walk p \<and> length p \<le> 3)
   \<and> grid_blocked (fst (2 :: int, 2 :: int)) (snd (2 :: int, 2 :: int))
   \<and> astar_path (1, 1) (2, 2) = Some (Inr [])"
proof -
  have q: "path_between (1, 1) (3, 1) [(1, 1), (2, 1), (3, 1)]"
    by (simp add: path_between_def neighbors_def grid_blocked_numeral_simps
        WORLD_MAP_def MAP_LAYOUT_def)
  then have r: "reachable (1, 1) (3, 1)" unfolding reachable_def by blast
  have b: "grid_blocked (fst (2 :: int, 2 :: int)) (snd (2 :: int, 2 :: int))"
    by (simp add: grid_blocked_numeral_simps WORLD_MAP_def MAP_LAYOUT_def)
  from astar_path_shortest [of "(1, 1)" "(3, 1)"] r obtain p
    where p: "astar_path (1, 1) (3, 1) = Some (Inr p)" "shortest_between (1, 1) (3, 1) p"
    by blast
  from p(2) q have "length p \<le> 3" "path_between (1, 1) (3, 1) p"
    unfolding shortest_between_def by fastforce+
  with p(1) have e: "\<exists>p. astar_path (1, 1) (3, 1) = Some (Inr p) \<and> hd p = (1, 1)
      \<and> last p = (3, 1) \<and> walk p \<and> length p \<le> 3"
    unfolding path_between_def by blast
  from astar_path_shortest [of "(1, 1)" "(2, 2)"] b
  have "astar_path (1, 1) (2, 2) = Some (Inr [])" by simp
  with r e b show ?thesis by blast
qed

theorem astar_blocked_goal_counterexample:
  "grid_blocked 2 2 \<and> astar_path (2, 2) (2, 2) = Some (Inr [(2, 2)])"
  by (simp add: astar_path_def grid_blocked_numeral_simps WORLD_MAP_def MAP_LAYOUT_def)


subsection \<open>Replanning\<close>


















subsection \<open>The traversal loop of the ray caster\<close>

lemma dda_step_steps: "steps (dda_step dx dy sx sy st) = steps st + 1"
  by (simp add: dda_step_def Let_def)

lemma dda_step_hit:
  "hit (dda_step dx dy sx sy st) \<longleftrightarrow>
     hit st \<or> grid_blocked (map_x (dda_step dx dy sx sy st)) (map_y (dda_step dx dy sx sy st))"
  by (auto simp: dda_step_def Let_def grid_blocked_def)

lemma dda_step_tile:
  assumes "\<not> hit st" "hit (dda_step dx dy sx sy st)"
  shows "tile (dda_step dx dy sx sy st) =
    (let s = dda_step dx dy sx sy st in
     if map_x s < 0 \<or> map_x s \<ge> MAP_WIDTH \<or> map_y s < 0 \<or> map_y s \<ge> MAP_HEIGHT
     then CHR ''1'' else WORLD_MAP ! nat (map_y s) ! nat (map_x s))"
  using assms by (auto simp: dda_step_def Let_def split: if_splits)

lemma max_steps_eq: "max_steps = 399"
  by (simp add: max_steps_def MAP_WIDTH_eq MAP_HEIGHT_eq)

lemma dda_loop_iterates:
  "steps st \<le> max_steps \<Longrightarrow>
   \<exists>n. steps st + int n \<le> max_steps
     \<and> dda_loop dx dy sx sy st = (dda_step dx dy sx sy ^^ n) st
     \<and> (\<forall>k < n. \<not> hit ((dda_step dx dy sx sy ^^ k) st))
     \<and> (hit (dda_loop dx dy sx sy st) \<or> steps st + int n = max_steps)"
proof (induction dx dy sx sy st rule: dda_loop.induct)
  case (1 dx dy sx sy st)
  let ?f = "dda_step dx dy sx sy"
  show ?case
  proof (cases "\<not> hit st \<and> steps st < max_steps")
    case True
    then have le: "steps (?f st) \<le> max_steps" by (simp add: dda_step_steps)
    from "1.IH" [OF True le] obtain n where n: "steps (?f st) + int n \<le> max_steps"
      "dda_loop dx dy sx sy (?f st) = (?f ^^ n) (?f st)"
      "\<forall>k < n. \<not> hit ((?f ^^ k) (?f st))"
      "hit (dda_loop dx dy sx sy (?f st)) \<or> steps (?f st) + int n = max_steps"
      by blast
    have unfold: "dda_loop dx dy sx sy st = dda_loop dx dy sx sy (?f st)"
      using True by (subst dda_loop.simps) simp
    have "\<not> hit ((?f ^^ k) st)" if "k < Suc n" for k
    proof (cases k)
      case 0
      with True show ?thesis by simp
    next
      case (Suc j)
      with that n(3) show ?thesis by (simp add: funpow_swap1)
    qed
    with n unfold show ?thesis
      by (intro exI [of _ "Suc n"]) (auto simp: dda_step_steps funpow_swap1)
  next
    case False
    then have "dda_loop dx dy sx sy st = st" by (subst dda_loop.simps) auto
    with False "1.prems" show ?thesis
      by (intro exI [of _ 0]) auto
  qed
qed


lemma ray_init_fields:
  "hit (ray_init player ray dx dy) = False" "steps (ray_init player ray dx dy) = 0"
  by (simp_all add: ray_init_def Let_def)

text \<open>
  C7. For any player, ray and step sizes, the traversal loop started as \<^verbatim>\<open>cast_rays\<close>
  starts it ends after \<open>n\<close> passes of its body, with \<open>n\<close> at least 1 and at most
  \<^verbatim>\<open>MAP_WIDTH * MAP_HEIGHT\<close>. Every cell stepped into before the last pass is open
  and inside the grid; the loop reports a hit exactly when the cell stepped into last
  is blocking or outside the grid, and otherwise the cap has been reached. On a hit
  outside the grid the tile is the default wall material 1, inside it is the tile of
  the map.
\<close>

theorem dda_bounded:
  fixes player ray dx dy sx sy
  defines "init \<equiv> ray_init player ray dx dy"
  defines "final \<equiv> dda_loop dx dy sx sy init"
  shows "\<exists>n. 0 < n \<and> int n \<le> MAP_WIDTH * MAP_HEIGHT
    \<and> final = (dda_step dx dy sx sy ^^ n) init
    \<and> steps final = int n
    \<and> (\<forall>k. 0 < k \<and> k < n \<longrightarrow>
          \<not> grid_blocked (map_x ((dda_step dx dy sx sy ^^ k) init))
                          (map_y ((dda_step dx dy sx sy ^^ k) init)))
    \<and> (hit final \<longleftrightarrow> grid_blocked (map_x final) (map_y final))
    \<and> (hit final \<or> int n = MAP_WIDTH * MAP_HEIGHT)
    \<and> (hit final \<longrightarrow> tile final =
          (if map_x final < 0 \<or> map_x final \<ge> MAP_WIDTH \<or> map_y final < 0
              \<or> map_y final \<ge> MAP_HEIGHT
           then CHR ''1'' else WORLD_MAP ! nat (map_y final) ! nat (map_x final)))"
proof -
  let ?f = "dda_step dx dy sx sy"
  have init: "\<not> hit init" "steps init = 0"
    by (simp_all add: init_def ray_init_fields)
  then have "steps init \<le> max_steps" by (simp add: max_steps_eq)
  from dda_loop_iterates [OF this, of dx dy sx sy] obtain n
    where n: "int n \<le> max_steps" "final = (?f ^^ n) init"
      "\<forall>k < n. \<not> hit ((?f ^^ k) init)" "hit final \<or> int n = max_steps"
    unfolding final_def using init(2) by auto
  have steps_pow: "steps ((?f ^^ k) init) = int k" for k
    by (induction k) (simp_all add: init dda_step_steps)
  have pos: "0 < n"
  proof (rule ccontr)
    assume "\<not> 0 < n"
    then have "n = 0" by simp
    with n(2,4) init(1) show False by (simp add: max_steps_eq)
  qed
  then obtain j where j: "n = Suc j" by (cases n) auto
  have prev: "\<not> hit ((?f ^^ j) init)" using n(3) j by simp
  have fin: "final = ?f ((?f ^^ j) init)" using n(2) j by simp
  have hit_iff: "hit final \<longleftrightarrow> grid_blocked (map_x final) (map_y final)"
    unfolding fin using dda_step_hit [of dx dy sx sy "(?f ^^ j) init"] prev by simp
  have open_before: "\<not> grid_blocked (map_x ((?f ^^ k) init)) (map_y ((?f ^^ k) init))"
    if "0 < k" "k < n" for k
  proof -
    from that obtain i where i: "k = Suc i" by (cases k) auto
    from n(3) that have "\<not> hit ((?f ^^ k) init)" by simp
    then show ?thesis
      unfolding i using dda_step_hit [of dx dy sx sy "(?f ^^ i) init"] by simp
  qed
  have tile: "tile final =
          (if map_x final < 0 \<or> map_x final \<ge> MAP_WIDTH \<or> map_y final < 0
              \<or> map_y final \<ge> MAP_HEIGHT
           then CHR ''1'' else WORLD_MAP ! nat (map_y final) ! nat (map_x final))"
    if "hit final"
    using dda_step_tile [OF prev, of dx dy sx sy] that unfolding fin by (simp add: Let_def)
  from pos n(1,2,4) steps_pow [of n] open_before hit_iff tile show ?thesis
    unfolding max_steps_def by (intro exI [of _ n]) simp
qed

theorem dda_bounded_witness:
  "hit (dda_loop (Fin 1) PosInf (- 1) 1 (ray_init spawn_player (- 1, 0) (Fin 1) PosInf))
   \<and> steps (dda_loop (Fin 1) PosInf (- 1) 1 (ray_init spawn_player (- 1, 0) (Fin 1) PosInf)) = 1
   \<and> map_x (dda_loop (Fin 1) PosInf (- 1) 1 (ray_init spawn_player (- 1, 0) (Fin 1) PosInf)) = 2
   \<and> map_y (dda_loop (Fin 1) PosInf (- 1) 1 (ray_init spawn_player (- 1, 0) (Fin 1) PosInf)) = 3
   \<and> tile (dda_loop (Fin 1) PosInf (- 1) 1 (ray_init spawn_player (- 1, 0) (Fin 1) PosInf))
       = CHR ''1''"
proof -
  let ?init = "ray_init spawn_player (- 1, 0) (Fin 1) PosInf"
  let ?final = "dda_loop (Fin 1) PosInf (- 1) 1 ?init"
  have first: "dda_step (Fin 1) PosInf (- 1) 1 ?init =
    \<lparr>map_x = 2, map_y = 3, side_dist_x = Fin 1.5, side_dist_y = PosInf, hit = True,
     side = 0, tile = CHR ''1'', steps = 1\<rparr>"
    by (simp add: dda_step_def ray_init_def side_dist_init_def spawn_player_def py_int_def
        Let_def MAP_WIDTH_eq MAP_HEIGHT_eq WORLD_MAP_def MAP_LAYOUT_def)
  have init: "\<not> hit ?init" "steps ?init < max_steps"
    by (simp_all add: ray_init_def Let_def max_steps_eq)
  have final: "?final = dda_step (Fin 1) PosInf (- 1) 1 ?init"
    using init by (subst dda_loop.simps, simp, subst dda_loop.simps) (simp add: first)
  have blocked: "grid_blocked (map_x ?final) (map_y ?final)"
    by (simp add: final first grid_blocked_numeral_simps WORLD_MAP_def MAP_LAYOUT_def)
  from dda_bounded [of "Fin 1" PosInf "- 1" 1 spawn_player "(- 1, 0)"] blocked
  have "hit ?final" by blast
  then show ?thesis by (simp add: final first)
qed


subsection \<open>Occlusion of billboards\<close>

text \<open>
  The depth of a billboard is its second camera-space coordinate, with the inverse
  determinant that the compositor computes. A blit is visible in a depth buffer when its
  column is on the screen and the buffer's value there is greater than the depth of its
  billboard (and hence not smaller).
\<close>

definition sprite_depth :: "Player \<Rightarrow> real \<Rightarrow> real \<Rightarrow> real" where
  "sprite_depth player wx wy = snd (camera_transform (1 / camera_det player) player wx wy)"

definition visible :: "pyfloat list \<Rightarrow> blit \<Rightarrow> bool" where
  "visible depth_buffer b \<longleftrightarrow>
    0 \<le> blit_x b \<and> blit_x b < SCREEN_WIDTH
    \<and> (\<exists>depth. py_index depth_buffer (blit_x b) = Inr depth
          \<and> fl_less (Fin (blit_depth b)) depth \<and> \<not> fl_less depth (Fin (blit_depth b)))"

lemma bind_err_Inr:
  "bind_err m f = Inr r \<longleftrightarrow> (\<exists>v. m = Inr v \<and> f v = Inr r)"
  by (cases m) (simp_all add: bind_err_def)

lemma fl_less_asym: "fl_less a b \<Longrightarrow> \<not> fl_less b a"
  by (cases a; cases b) auto

lemma draw_stripes_visible:
  "draw_stripes db fr ty sl sw sh dy stripes = Inr blits \<Longrightarrow> b \<in> set blits \<Longrightarrow>
   visible db b \<and> blit_depth b = ty \<and> blit_x b \<in> set stripes"
proof (induction stripes arbitrary: blits)
  case Nil
  then show ?case by simp
next
  case (Cons stripe rest)
  let ?rest = "draw_stripes db fr ty sl sw sh dy rest"
  show ?case
  proof (cases "0 \<le> stripe \<and> stripe < SCREEN_WIDTH \<and> 0 \<le> stripe - sl \<and> stripe - sl < sw")
    case False
    with Cons.prems(1) have "?rest = Inr blits" by (auto simp: Let_def)
    from Cons.IH [OF this Cons.prems(2)] show ?thesis by simp
  next
    case True
    with Cons.prems(1) obtain depth where d: "py_index db stripe = Inr depth"
      and r: "(if fl_less (Fin ty) depth
               then bind_err ?rest (\<lambda>blits. Inr (\<lparr>blit_frame = fr, blit_depth = ty, blit_x = stripe,
                               blit_y = dy, blit_tex_x = stripe - sl,
                               blit_height = sh\<rparr> # blits))
               else ?rest) = Inr blits"
      by (auto simp: Let_def bind_err_Inr)
    show ?thesis
    proof (cases "fl_less (Fin ty) depth")
      case False
      with r have "?rest = Inr blits" by simp
      from Cons.IH [OF this Cons.prems(2)] show ?thesis by simp
    next
      case less: True
      with r obtain bs where bs: "?rest = Inr bs"
        and blits: "blits = \<lparr>blit_frame = fr, blit_depth = ty, blit_x = stripe,
                               blit_y = dy, blit_tex_x = stripe - sl,
                               blit_height = sh\<rparr> # bs"
        by (auto simp: bind_err_Inr)
      from Cons.prems(2) blits consider "b = \<lparr>blit_frame = fr, blit_depth = ty, blit_x = stripe,
                               blit_y = dy, blit_tex_x = stripe - sl,
                               blit_height = sh\<rparr>" | "b \<in> set bs" by auto
      then show ?thesis
      proof cases
        case 1
        with True d less fl_less_asym [OF less] show ?thesis by (simp add: visible_def)
      next
        case 2
        from Cons.IH [OF bs 2] show ?thesis by simp
      qed
    qed
  qed
qed

lemma draw_billboard_visible:
  "draw_billboard db fr ty sx sw sh = Inr blits \<Longrightarrow> b \<in> set blits \<Longrightarrow>
   visible db b \<and> blit_depth b = ty"
  using draw_stripes_visible
  by (fastforce simp: draw_billboard_def Let_def split: if_splits)

lemma draw_monster_visible:
  assumes "draw_monster inv_det player db n m = Inr blits" "b \<in> set blits"
  shows "visible db b \<and> 0 < blit_depth b
    \<and> blit_depth b = snd (camera_transform inv_det player (monster_x m) (monster_y m))"
proof -
  obtain tx ty where t: "camera_transform inv_det player (monster_x m) (monster_y m) = (tx, ty)"
    by (cases "camera_transform inv_det player (monster_x m) (monster_y m)")
  show ?thesis
  proof (cases "ty \<le> 0")
    case True
    with assms t show ?thesis by (simp add: draw_monster_def)
  next
    case False
    with assms(1) t obtain fr sx sw sh where "draw_billboard db fr ty sx sw sh = Inr blits"
      by (auto simp: draw_monster_def bind_err_Inr Let_def)
    from draw_billboard_visible [OF this assms(2)] False t show ?thesis by simp
  qed
qed

lemma draw_pellet_visible:
  assumes "draw_pellet inv_det player db ssz p = Inr blits" "b \<in> set blits"
  shows "visible db b \<and> 0 < blit_depth b \<and> \<not> collected p
    \<and> blit_depth b = snd (camera_transform inv_det player (pellet_x p) (pellet_y p))"
proof -
  obtain tx ty where t: "camera_transform inv_det player (pellet_x p) (pellet_y p) = (tx, ty)"
    by (cases "camera_transform inv_det player (pellet_x p) (pellet_y p)")
  show ?thesis
  proof (cases "collected p \<or> ty \<le> 0")
    case True
    with assms t show ?thesis by (auto simp: draw_pellet_def split: if_splits)
  next
    case False
    with assms(1) t obtain fr sx sw sh where "draw_billboard db fr ty sx sw sh = Inr blits"
      by (auto simp: draw_pellet_def bind_err_Inr Let_def split: if_splits)
    from draw_billboard_visible [OF this assms(2)] False t show ?thesis by simp
  qed
qed

lemma draw_each_member:
  "draw_each f xs = Inr blits \<Longrightarrow> b \<in> set blits \<Longrightarrow>
   \<exists>x \<in> set xs. \<exists>bs. f x = Inr bs \<and> b \<in> set bs"
proof (induction xs arbitrary: blits)
  case Nil
  then show ?case by simp
next
  case (Cons x xs)
  from Cons.prems(1) obtain bs ms where f: "f x = Inr bs" and r: "draw_each f xs = Inr ms"
    and blits: "blits = bs @ ms"
    by (auto simp: bind_err_Inr)
  from Cons.prems(2) blits have "b \<in> set bs \<or> b \<in> set ms" by simp
  then show ?case
  proof
    assume "b \<in> set bs"
    with f show ?thesis by auto
  next
    assume "b \<in> set ms"
    from Cons.IH [OF r this] show ?thesis by auto
  qed
qed

text \<open>
  C4. Every stripe that \<^const>\<open>draw_monsters\<close> or \<^const>\<open>draw_collectibles\<close> draws lies
  in a column within the screen bounds in which the value of the depth buffer is strictly
  greater than the camera-space depth of the billboard the stripe belongs to, which is a
  monster of the list or a pellet of the list that is not collected. So no stripe is
  drawn in a column whose depth-buffer value is smaller than the depth of its billboard.
\<close>

theorem sprite_occlusion:
  "(draw_monsters player monsters depth_buffer frame_count = Inr blits \<and> b \<in> set blits \<longrightarrow>
      visible depth_buffer b
      \<and> (\<exists>m \<in> set monsters. blit_depth b = sprite_depth player (monster_x m) (monster_y m)))
   \<and> (draw_collectibles player pellets depth_buffer sprite_size = Inr blits' \<and> b' \<in> set blits' \<longrightarrow>
      visible depth_buffer b'
      \<and> (\<exists>p \<in> set pellets. \<not> collected p
            \<and> blit_depth b' = sprite_depth player (pellet_x p) (pellet_y p)))"
proof -
  have monsters_part: "visible depth_buffer b
      \<and> (\<exists>m \<in> set monsters. blit_depth b = sprite_depth player (monster_x m) (monster_y m))"
    if a: "draw_monsters player monsters depth_buffer frame_count = Inr blits \<and> b \<in> set blits"
  proof -
    from a have nz: "camera_det player \<noteq> 0" and fc: "frame_count \<noteq> 0"
      by (auto simp: draw_monsters_def Let_def bind_err_Inr split: if_splits)
    with a have "draw_each (draw_monster (1 / camera_det player) player depth_buffer frame_count)
        monsters = Inr blits"
      by (simp add: draw_monsters_def Let_def py_truediv_def bind_err_def)
    from draw_each_member [OF this] a obtain m bs where m: "m \<in> set monsters"
      and bs: "draw_monster (1 / camera_det player) player depth_buffer frame_count m = Inr bs"
        "b \<in> set bs" by blast
    from draw_monster_visible [OF bs] m show ?thesis
      unfolding sprite_depth_def by blast
  qed
  have pellets_part: "visible depth_buffer b'
      \<and> (\<exists>p \<in> set pellets. \<not> collected p
            \<and> blit_depth b' = sprite_depth player (pellet_x p) (pellet_y p))"
    if a: "draw_collectibles player pellets depth_buffer sprite_size = Inr blits' \<and> b' \<in> set blits'"
  proof -
    from a have nz: "camera_det player \<noteq> 0" and ne: "pellets \<noteq> []"
      by (auto simp: draw_collectibles_def Let_def bind_err_Inr split: if_splits)
    with a have "draw_each (draw_pellet (1 / camera_det player) player depth_buffer sprite_size)
        pellets = Inr blits'"
      by (simp add: draw_collectibles_def Let_def py_truediv_def bind_err_def)
    from draw_each_member [OF this] a obtain p bs where p: "p \<in> set pellets"
      and bs: "draw_pellet (1 / camera_det player) player depth_buffer sprite_size p = Inr bs"
        "b' \<in> set bs" by blast
    from draw_pellet_visible [OF bs] p show ?thesis
      unfolding sprite_depth_def by blast
  qed
  from monsters_part pellets_part show ?thesis by blast
qed


definition corridor_player :: Player where
  "corridor_player = \<lparr>player_x = 19.5, player_y = 1.5, dir_x = - 1, dir_y = 0,
     plane_x = 0, plane_y = 0.66\<rparr>"

definition corridor_monster :: Monster where
  "corridor_monster = \<lparr>monster_x = 1.5, monster_y = 1.5, speed = 1.2, pulse = 0,
     anim_timer = 0, path = [], path_cooldown = 0\<rparr>"

definition corridor_pellet :: Pellet where
  "corridor_pellet = \<lparr>pellet_x = 1.5, pellet_y = 1.5, collected = False\<rparr>"

definition corridor_depths :: "pyfloat list" where
  "corridor_depths = (replicate 960 (Fin 5))[480 := Fin 18.5]"

lemma draw_monsters_unfold:
  "camera_det player \<noteq> 0 \<Longrightarrow> frame_count \<noteq> 0 \<Longrightarrow>
   draw_monsters player monsters db frame_count =
     draw_each (draw_monster (1 / camera_det player) player db frame_count) monsters"
  by (simp add: draw_monsters_def Let_def py_truediv_def bind_err_def)

lemma draw_collectibles_unfold:
  "camera_det player \<noteq> 0 \<Longrightarrow> pellets \<noteq> [] \<Longrightarrow>
   draw_collectibles player pellets db ssz =
     draw_each (draw_pellet (1 / camera_det player) player db ssz) pellets"
  by (simp add: draw_collectibles_def Let_def py_truediv_def bind_err_def)

theorem sprite_occlusion_witness:
  "draw_monsters corridor_player [corridor_monster] corridor_depths 4
     = Inr [\<lparr>blit_frame = 0, blit_depth = 18, blit_x = 480, blit_y = 283, blit_tex_x = 17,
             blit_height = 33\<rparr>]
   \<and> visible corridor_depths \<lparr>blit_frame = 0, blit_depth = 18, blit_x = 480, blit_y = 283,
        blit_tex_x = 17, blit_height = 33\<rparr>
   \<and> draw_collectibles corridor_player [corridor_pellet] corridor_depths pellet_sprite_size
     = Inr [\<lparr>blit_frame = 0, blit_depth = 18, blit_x = 480, blit_y = 294, blit_tex_x = 6,
             blit_height = 11\<rparr>]
   \<and> visible corridor_depths \<lparr>blit_frame = 0, blit_depth = 18, blit_x = 480, blit_y = 294,
        blit_tex_x = 6, blit_height = 11\<rparr>"
proof -
  let ?b = "\<lparr>blit_frame = 0, blit_depth = 18, blit_x = 480, blit_y = 283, blit_tex_x = 17,
             blit_height = 33\<rparr>"
  let ?c = "\<lparr>blit_frame = 0, blit_depth = 18, blit_x = 480, blit_y = 294, blit_tex_x = 6,
             blit_height = 11\<rparr>"
  let ?inv = "1 / camera_det corridor_player"
  have det: "camera_det corridor_player \<noteq> 0"
    by (simp add: camera_det_def corridor_player_def)
  have tm: "camera_transform ?inv corridor_player (monster_x corridor_monster)
      (monster_y corridor_monster) = (0, 18)"
    by (simp add: camera_transform_def camera_det_def corridor_player_def
        corridor_monster_def Let_def)
  have tp: "camera_transform ?inv corridor_player (pellet_x corridor_pellet)
      (pellet_y corridor_pellet) = (0, 18)"
    by (simp add: camera_transform_def camera_det_def corridor_player_def
        corridor_pellet_def Let_def)
  have bm: "draw_billboard corridor_depths 0 18 480 33 33 = Inr [?b]"
    by (simp add: draw_billboard_def SCREEN_WIDTH_def SCREEN_HEIGHT_def Let_def
        bind_err_def py_index_def nth_list_update corridor_depths_def)
  have bp: "draw_billboard corridor_depths 0 18 480 11 11 = Inr [?c]"
    by (simp add: draw_billboard_def SCREEN_WIDTH_def SCREEN_HEIGHT_def Let_def
        bind_err_def py_index_def nth_list_update corridor_depths_def)
  have dm: "draw_monster ?inv corridor_player corridor_depths 4 corridor_monster = Inr [?b]"
    unfolding draw_monster_def tm
    by (simp add: py_mod_def py_truediv_def bind_err_def py_int_def SCREEN_WIDTH_def
        SCREEN_HEIGHT_def MONSTER_ANIM_FPS_def corridor_monster_def bm)
  have dp: "draw_pellet ?inv corridor_player corridor_depths pellet_sprite_size corridor_pellet
      = Inr [?c]"
    unfolding draw_pellet_def tp
    by (simp add: py_truediv_def bind_err_def py_int_def SCREEN_WIDTH_def
        SCREEN_HEIGHT_def pellet_sprite_size_def corridor_pellet_def bp)
  have m: "draw_monsters corridor_player [corridor_monster] corridor_depths 4 = Inr [?b]"
    using det by (simp add: draw_monsters_unfold dm bind_err_def)
  have p: "draw_collectibles corridor_player [corridor_pellet] corridor_depths
      pellet_sprite_size = Inr [?c]"
    using det by (simp add: draw_collectibles_unfold dp bind_err_def)
  from sprite_occlusion [of corridor_player "[corridor_monster]" corridor_depths 4 "[?b]" ?b
      "[corridor_pellet]" pellet_sprite_size "[?c]" ?c] m p
  have "visible corridor_depths ?b" "visible corridor_depths ?c" by simp_all
  with m p show ?thesis by blast
qed

subsection \<open>Divisions\<close>

lemma bind_err_Inl:
  "bind_err m f = Inl e \<longleftrightarrow> m = Inl e \<or> (\<exists>v. m = Inr v \<and> f v = Inl e)"
  by (cases m) (simp_all add: bind_err_def)

lemma py_index_error: "py_index xs i = Inl e \<Longrightarrow> e = IndexError"
  by (auto simp: py_index_def Let_def split: if_splits)

lemma draw_stripes_error:
  "draw_stripes db fr ty sl sw sh dy stripes = Inl e \<Longrightarrow> e = IndexError"
proof (induction stripes)
  case Nil
  then show ?case by simp
next
  case (Cons stripe rest)
  then show ?case
    by (auto simp: Let_def bind_err_Inl split: if_splits dest: py_index_error)
qed

lemma draw_billboard_error:
  "draw_billboard db fr ty sx sw sh = Inl e \<Longrightarrow> e = IndexError"
  by (auto simp: draw_billboard_def Let_def split: if_splits dest: draw_stripes_error)

lemma draw_monster_error:
  assumes "0 < frame_count" "draw_monster inv_det player db frame_count m = Inl e"
  shows "e = IndexError"
proof -
  obtain tx ty where t: "camera_transform inv_det player (monster_x m) (monster_y m) = (tx, ty)"
    by (cases "camera_transform inv_det player (monster_x m) (monster_y m)")
  from assms t show ?thesis
    by (auto simp: draw_monster_def bind_err_Inl py_mod_def py_truediv_def Let_def
        split: if_splits dest: draw_billboard_error)
qed

lemma draw_pellet_error:
  assumes "snd ssz \<noteq> 0" "draw_pellet inv_det player db ssz p = Inl e"
  shows "e = IndexError"
proof -
  obtain tx ty where t: "camera_transform inv_det player (pellet_x p) (pellet_y p) = (tx, ty)"
    by (cases "camera_transform inv_det player (pellet_x p) (pellet_y p)")
  from assms t show ?thesis
    by (auto simp: draw_pellet_def bind_err_Inl py_truediv_def Let_def
        split: if_splits dest: draw_billboard_error)
qed

lemma draw_each_error:
  "draw_each f xs = Inl e \<Longrightarrow> \<exists>x \<in> set xs. f x = Inl e"
  by (induction xs) (auto simp: bind_err_Inl)

lemma draw_monsters_error:
  "draw_monsters player monsters db frame_count = Inl e \<Longrightarrow> e = IndexError"
  by (auto simp: draw_monsters_def Let_def bind_err_Inl py_truediv_def
      split: if_splits dest!: draw_each_error dest: draw_monster_error)

lemma draw_collectibles_error:
  "snd ssz \<noteq> 0 \<Longrightarrow> draw_collectibles player pellets db ssz = Inl e \<Longrightarrow> e = IndexError"
  by (auto simp: draw_collectibles_def Let_def bind_err_Inl py_truediv_def
      split: if_splits dest!: draw_each_error dest: draw_pellet_error)

lemma delta_dist_ok: "\<exists>d. delta_dist r = Inr d"
  by (simp add: delta_dist_def py_truediv_def bind_err_def)

lemma clamped_division:
  "fl_truediv a (py_max p (Fin 0.0001)) \<noteq> Inl ZeroDivisionError"
  by (cases p) (auto simp: py_max_def)

lemma fl_truediv_error: "fl_truediv a p = Inl e \<Longrightarrow> e = ZeroDivisionError"
  by (cases p) (auto split: if_splits)

lemma fl_int_error: "fl_int q = Inl e \<Longrightarrow> e = ValueError \<or> e = OverflowError"
  by (cases q) auto

lemma cast_column_error:
  "cast_column player column = Inl e \<Longrightarrow> e = ValueError \<or> e = OverflowError"
proof -
  assume a: "cast_column player column = Inl e"
  obtain dx where dx: "delta_dist (fst (ray_dir player column)) = Inr dx"
    using delta_dist_ok by blast
  obtain dy where dy: "delta_dist (snd (ray_dir player column)) = Inr dy"
    using delta_dist_ok by blast
  from a show ?thesis
    unfolding cast_column_def Let_def dx dy bind_err_def
    using clamped_division
    by (auto split: if_splits sum.splits dest: fl_int_error fl_truediv_error)
qed

lemma cast_columns_error:
  "cast_columns player columns db = Inl e \<Longrightarrow> e = ValueError \<or> e = OverflowError"
proof (induction columns arbitrary: db)
  case Nil
  then show ?case by simp
next
  case (Cons c cs)
  then show ?case
    by (auto simp: bind_err_Inl split: option.splits prod.splits dest: cast_column_error)
qed


text \<open>
  C9. The compositor never raises \<^verbatim>\<open>ZeroDivisionError\<close>: with a zero determinant it
  draws nothing, and a billboard whose depth is not positive is discarded before any
  division by the depth (for pellets, given that the pellet sprite has a height that is
  not zero, as the sprite of the program has). The ray caster takes infinity for the step
  of a zero ray component instead of dividing by it, and the clamped perpendicular
  distance is never zero, so neither a column nor the whole cast raises it.
\<close>

theorem no_zero_division:
  "draw_monsters player monsters depth_buffer frame_count \<noteq> Inl ZeroDivisionError
   \<and> (snd sprite_size \<noteq> 0 \<longrightarrow>
        draw_collectibles player pellets depth_buffer sprite_size \<noteq> Inl ZeroDivisionError)
   \<and> (camera_det player = 0 \<longrightarrow>
        draw_monsters player monsters depth_buffer frame_count = Inr []
        \<and> draw_collectibles player pellets depth_buffer sprite_size = Inr [])
   \<and> (snd (camera_transform inv_det player (monster_x m) (monster_y m)) \<le> 0 \<longrightarrow>
        draw_monster inv_det player depth_buffer frame_count m = Inr [])
   \<and> (snd (camera_transform inv_det player (pellet_x p) (pellet_y p)) \<le> 0 \<longrightarrow>
        draw_pellet inv_det player depth_buffer sprite_size p = Inr [])
   \<and> delta_dist 0 = Inr PosInf
   \<and> cast_column player column \<noteq> Inl ZeroDivisionError
   \<and> cast_rays player \<noteq> Inl ZeroDivisionError"
proof -
  have 1: "draw_monsters player monsters depth_buffer frame_count \<noteq> Inl ZeroDivisionError"
    using draw_monsters_error by fastforce
  have 2: "draw_collectibles player pellets depth_buffer sprite_size \<noteq> Inl ZeroDivisionError"
    if "snd sprite_size \<noteq> 0"
    using draw_collectibles_error [OF that] by fastforce
  have 3: "draw_monsters player monsters depth_buffer frame_count = Inr []
        \<and> draw_collectibles player pellets depth_buffer sprite_size = Inr []"
    if "camera_det player = 0"
    using that by (simp add: draw_monsters_def draw_collectibles_def)
  have 4: "draw_monster inv_det player depth_buffer frame_count m = Inr []"
    if "snd (camera_transform inv_det player (monster_x m) (monster_y m)) \<le> 0"
    using that by (auto simp: draw_monster_def split: prod.splits)
  have 5: "draw_pellet inv_det player depth_buffer sprite_size p = Inr []"
    if "snd (camera_transform inv_det player (pellet_x p) (pellet_y p)) \<le> 0"
    using that by (auto simp: draw_pellet_def split: prod.splits)
  have 6: "delta_dist 0 = Inr PosInf" by (simp add: delta_dist_def)
  have 7: "cast_column player column \<noteq> Inl ZeroDivisionError"
    using cast_column_error by fastforce
  have 8: "cast_rays player \<noteq> Inl ZeroDivisionError"
    unfolding cast_rays_def using cast_columns_error by fastforce
  from 1 2 3 4 5 6 7 8 show ?thesis by blast
qed

theorem no_zero_division_witness:
  "snd pellet_sprite_size \<noteq> 0
   \<and> draw_collectibles corridor_player [corridor_pellet] corridor_depths pellet_sprite_size
       \<noteq> Inl ZeroDivisionError
   \<and> camera_det (corridor_player\<lparr>plane_y := 0\<rparr>) = 0
   \<and> draw_monsters (corridor_player\<lparr>plane_y := 0\<rparr>) [corridor_monster] corridor_depths 4
       = Inr []
   \<and> snd (camera_transform (1 / 0.66) corridor_player 20.5 1.5) \<le> 0
   \<and> draw_monster (1 / 0.66) corridor_player corridor_depths 4
       (corridor_monster\<lparr>monster_x := 20.5\<rparr>) = Inr []
   \<and> draw_pellet (1 / 0.66) corridor_player corridor_depths pellet_sprite_size
       (corridor_pellet\<lparr>pellet_x := 20.5\<rparr>) = Inr []"
proof -
  have size: "snd pellet_sprite_size \<noteq> 0" by (simp add: pellet_sprite_size_def)
  have det: "camera_det (corridor_player\<lparr>plane_y := 0\<rparr>) = 0"
    by (simp add: camera_det_def corridor_player_def)
  have behind: "snd (camera_transform (1 / 0.66) corridor_player 20.5 1.5) \<le> 0"
    by (simp add: camera_transform_def corridor_player_def Let_def)
  then have behind_m: "snd (camera_transform (1 / 0.66) corridor_player
      (monster_x (corridor_monster\<lparr>monster_x := 20.5\<rparr>))
      (monster_y (corridor_monster\<lparr>monster_x := 20.5\<rparr>))) \<le> 0"
    by (simp add: corridor_monster_def)
  from behind have behind_p: "snd (camera_transform (1 / 0.66) corridor_player
      (pellet_x (corridor_pellet\<lparr>pellet_x := 20.5\<rparr>))
      (pellet_y (corridor_pellet\<lparr>pellet_x := 20.5\<rparr>))) \<le> 0"
    by (simp add: corridor_pellet_def)
  note a = no_zero_division [of corridor_player "[corridor_monster]" corridor_depths 4
      pellet_sprite_size "[corridor_pellet]"]
  from a size have 1: "draw_collectibles corridor_player [corridor_pellet] corridor_depths
      pellet_sprite_size \<noteq> Inl ZeroDivisionError" by blast
  from no_zero_division [of "corridor_player\<lparr>plane_y := 0\<rparr>" "[corridor_monster]"
      corridor_depths 4] det
  have 2: "draw_monsters (corridor_player\<lparr>plane_y := 0\<rparr>) [corridor_monster] corridor_depths 4
      = Inr []" by blast
  from no_zero_division [of corridor_player _ corridor_depths 4 pellet_sprite_size _
      "1 / 0.66" "corridor_monster\<lparr>monster_x := 20.5\<rparr>" "corridor_pellet\<lparr>pellet_x := 20.5\<rparr>"]
    behind_m behind_p
  have 3: "draw_monster (1 / 0.66) corridor_player corridor_depths 4
       (corridor_monster\<lparr>monster_x := 20.5\<rparr>) = Inr []"
    and 4: "draw_pellet (1 / 0.66) corridor_player corridor_depths pellet_sprite_size
       (corridor_pellet\<lparr>pellet_x := 20.5\<rparr>) = Inr []"
    by blast+
  from size 1 det 2 behind 3 4 show ?thesis by blast
qed


subsection \<open>The distance found by the traversal\<close>






























lemma fl_less_PosInf_left [simp]: "\<not> fl_less PosInf b"
  by (cases b) auto


lemma fl_less_Fin_le: "t \<le> c \<Longrightarrow> fl_less (Fin c) a \<Longrightarrow> fl_less (Fin t) a"
  by (cases a) auto



































end
